theory Spec2Isabelle
  imports Main
begin

section \<open>Strings and numbers of the host language\<close>

text \<open>
  The component under verification is \<^verbatim>\<open>src/features/modals/NodeModal/index.tsx\<close>: three
  helper functions (\<^verbatim>\<open>normalizeNodeData\<close>, \<^verbatim>\<open>jsonPathToString\<close>, \<^verbatim>\<open>updateJsonAtPath\<close>)
  and the view \<^verbatim>\<open>NodeModal\<close> with its handlers.

  A JavaScript string is a sequence of UTF-16 code units; it is modelled as a list of
  natural numbers, one per code unit. \<open>str\<close> turns an ASCII literal into such a list.
\<close>

type_synonym jsstring = "nat list"

definition str :: "string \<Rightarrow> jsstring" where
  "str s = map of_char s"

text \<open>
  A number is modelled as an exact decimal: \<open>Num neg m e\<close> is \<open>\<plusminus> m \<times> 10\<^sup>e\<close>. The rounding
  of IEEE-754 doubles and the overflow to \<^verbatim>\<open>Infinity\<close> are not part of the model.
\<close>

datatype jsnum = Num bool nat int

function digits :: "nat \<Rightarrow> nat list" where
  "digits n = (if n < 10 then [n] else digits (n div 10) @ [n mod 10])"
  by pat_completeness auto
termination
  by (relation "measure id") auto

declare digits.simps [simp del]

definition digit_char :: "nat \<Rightarrow> nat" where
  "digit_char d = 48 + d"

definition show_nat :: "nat \<Rightarrow> jsstring" where
  "show_nat n = map digit_char (digits n)"

text \<open>
  \<^verbatim>\<open>Number::toString\<close> of ECMAScript (radix 10). With \<open>s\<close> the significant digits
  (no trailing zero), \<open>k\<close> their count and \<open>n\<close> the position of the decimal point, the four
  layouts are: an integer padded with zeros, a decimal point inside the digits, a leading
  \<^verbatim>\<open>0.\<close>, and the exponent notation.
\<close>

definition Number_toString :: "jsnum \<Rightarrow> jsstring" where
  "Number_toString x =
     (case x of Num neg m e \<Rightarrow>
        if m = 0 then [48]
        else
          let ds = digits m;
              z = length (takeWhile (\<lambda>d. d = 0) (rev ds));
              s = map digit_char (take (length ds - z) ds);
              k = int (length s);
              n = e + int z + k;
              body =
                (if k \<le> n \<and> n \<le> 21 then s @ replicate (nat (n - k)) 48
                 else if 0 < n \<and> n \<le> 21 then take (nat n) s @ [46] @ drop (nat n) s
                 else if - 6 < n \<and> n \<le> 0 then [48, 46] @ replicate (nat (- n)) 48 @ s
                 else
                   let ex = (if n - 1 < 0 then [45] else [43]) @ show_nat (nat \<bar>n - 1\<bar>)
                   in if k = 1 then s @ [101] @ ex
                      else [hd s, 46] @ tl s @ [101] @ ex)
          in (if neg then [45] else []) @ body)"

section \<open>JSON values and \<^verbatim>\<open>JSON.stringify\<close>\<close>

text \<open>
  The values \<^verbatim>\<open>JSON.parse\<close> returns. An object is the list of its own enumerable
  properties in the host's enumeration order: array-index names first, ascending, then
  the other names in order of creation.
\<close>

datatype json =
    JNull
  | JBool bool
  | JNum jsnum
  | JStr jsstring
  | JArr "json list"
  | JObj "(jsstring \<times> json) list"

fun join :: "jsstring \<Rightarrow> jsstring list \<Rightarrow> jsstring" where
  "join sep [] = []"
| "join sep [x] = x"
| "join sep (x # y # ys) = x @ sep @ join sep (y # ys)"

definition hex_digit :: "nat \<Rightarrow> nat" where
  "hex_digit d = (if d < 10 then 48 + d else 87 + d)"

definition unicode_escape :: "nat \<Rightarrow> jsstring" where
  "unicode_escape c =
     [92, 117, hex_digit (c div 4096 mod 16), hex_digit (c div 256 mod 16),
      hex_digit (c div 16 mod 16), hex_digit (c mod 16)]"

definition is_high_surrogate :: "nat \<Rightarrow> bool" where
  "is_high_surrogate c = (55296 \<le> c \<and> c \<le> 56319)"

definition is_low_surrogate :: "nat \<Rightarrow> bool" where
  "is_low_surrogate c = (56320 \<le> c \<and> c \<le> 57343)"

text \<open>
  \<^verbatim>\<open>QuoteJSONString\<close> without the enclosing quotes: the short escapes, \<^verbatim>\<open>\uXXXX\<close> for the
  other control characters and for unpaired surrogates, everything else as it is.
\<close>

fun quote_chars :: "jsstring \<Rightarrow> jsstring" where
  "quote_chars [] = []"
| "quote_chars (c # cs) =
     (if c = 8 then [92, 98] @ quote_chars cs
      else if c = 9 then [92, 116] @ quote_chars cs
      else if c = 10 then [92, 110] @ quote_chars cs
      else if c = 12 then [92, 102] @ quote_chars cs
      else if c = 13 then [92, 114] @ quote_chars cs
      else if c = 34 then [92, 34] @ quote_chars cs
      else if c = 92 then [92, 92] @ quote_chars cs
      else if c < 32 then unicode_escape c @ quote_chars cs
      else if is_high_surrogate c then
        (case cs of
           [] \<Rightarrow> unicode_escape c
         | d # ds \<Rightarrow>
             if is_low_surrogate d then c # d # quote_chars ds
             else unicode_escape c @ quote_chars cs)
      else if is_low_surrogate c then unicode_escape c @ quote_chars cs
      else c # quote_chars cs)"

definition quote :: "jsstring \<Rightarrow> jsstring" where
  "quote s = [34] @ quote_chars s @ [34]"

text \<open>
  \<^verbatim>\<open>JSON.stringify(value, null, 2)\<close>: \<open>serialize ind v\<close> is the text of \<open>v\<close> at the
  indentation \<open>ind\<close>. An empty container is printed closed; the members of a non-empty one
  stand on lines of their own, two spaces deeper.
\<close>

fun serialize :: "nat \<Rightarrow> json \<Rightarrow> jsstring" where
  "serialize ind JNull = str ''null''"
| "serialize ind (JBool b) = (if b then str ''true'' else str ''false'')"
| "serialize ind (JNum x) = Number_toString x"
| "serialize ind (JStr s) = quote s"
| "serialize ind (JArr xs) =
     (if xs = [] then str ''[]''
      else [91, 10]
        @ join [44, 10] (map (\<lambda>x. replicate (ind + 2) 32 @ serialize (ind + 2) x) xs)
        @ [10] @ replicate ind 32 @ [93])"
| "serialize ind (JObj kvs) =
     (if kvs = [] then str ''{}''
      else [123, 10]
        @ join [44, 10]
            (map (\<lambda>kv. replicate (ind + 2) 32 @ quote (fst kv) @ [58, 32]
                        @ serialize (ind + 2) (snd kv)) kvs)
        @ [10] @ replicate ind 32 @ [125])"

definition JSON_stringify :: "json \<Rightarrow> jsstring" where
  "JSON_stringify v = serialize 0 v"

text \<open>
  \<^verbatim>\<open>ToString\<close>, which a template literal applies to its value: a string is itself, an
  array is its elements joined by commas (\<^verbatim>\<open>null\<close> elements empty), a plain object is
  \<^verbatim>\<open>[object Object]\<close>.
\<close>

fun ToString :: "json \<Rightarrow> jsstring" where
  "ToString JNull = str ''null''"
| "ToString (JBool b) = (if b then str ''true'' else str ''false'')"
| "ToString (JNum x) = Number_toString x"
| "ToString (JStr s) = s"
| "ToString (JArr xs) =
     join [44] (map (\<lambda>x. if x = JNull then [] else ToString x) xs)"
| "ToString (JObj kvs) = str ''[object Object]''"

section \<open>Own properties of objects and arrays\<close>

text \<open>
  A property name is a string; a number used as a name is converted by \<^verbatim>\<open>ToString\<close>. A
  name is an array index when it is the canonical decimal form of an integer below
  \<open>2\<^sup>3\<^sup>2 - 1\<close>.
\<close>

definition is_digit :: "nat \<Rightarrow> bool" where
  "is_digit c = (48 \<le> c \<and> c \<le> 57)"

definition nat_of_digits :: "jsstring \<Rightarrow> nat" where
  "nat_of_digits cs = foldl (\<lambda>a c. 10 * a + (c - 48)) 0 cs"

definition array_index :: "jsstring \<Rightarrow> nat option" where
  "array_index k =
     (if k \<noteq> [] \<and> list_all is_digit k \<and> (k = [48] \<or> hd k \<noteq> 48)
         \<and> nat_of_digits k < 4294967295
      then Some (nat_of_digits k) else None)"

fun replace_value :: "jsstring \<Rightarrow> json \<Rightarrow> (jsstring \<times> json) list \<Rightarrow> (jsstring \<times> json) list" where
  "replace_value k v [] = []"
| "replace_value k v (kv # kvs) =
     (if fst kv = k then (k, v) # kvs else kv # replace_value k v kvs)"

fun insert_index :: "nat \<Rightarrow> jsstring \<Rightarrow> json \<Rightarrow> (jsstring \<times> json) list \<Rightarrow> (jsstring \<times> json) list" where
  "insert_index i k v [] = [(k, v)]"
| "insert_index i k v (kv # kvs) =
     (case array_index (fst kv) of
        Some j \<Rightarrow> if j < i then kv # insert_index i k v kvs else (k, v) # kv # kvs
      | None \<Rightarrow> (k, v) # kv # kvs)"

text \<open>
  \<^verbatim>\<open>CreateDataProperty\<close> on an ordinary object: an existing property keeps its place and
  takes the new value; a new one is put where the enumeration order has it.
\<close>

definition define_own :: "jsstring \<Rightarrow> json \<Rightarrow> (jsstring \<times> json) list \<Rightarrow> (jsstring \<times> json) list" where
  "define_own k v kvs =
     (if k \<in> set (map fst kvs) then replace_value k v kvs
      else case array_index k of
             Some i \<Rightarrow> insert_index i k v kvs
           | None \<Rightarrow> kvs @ [(k, v)])"

text \<open>
  The assignment \<^verbatim>\<open>o[k] = v\<close> on an ordinary object. The name \<^verbatim>\<open>__proto__\<close>, when it is
  not an own property, is the accessor inherited from \<^verbatim>\<open>Object.prototype\<close>: the assignment
  calls its setter and creates no own property, so nothing enumerable changes. (With an
  object or \<^verbatim>\<open>null\<close> as the value the setter replaces the prototype of the object, which
  changes what later assignments of that name do; the model does not follow this.)
\<close>

definition proto_name :: jsstring where
  "proto_name = str ''__proto__''"

definition assign_own :: "jsstring \<Rightarrow> json \<Rightarrow> (jsstring \<times> json) list \<Rightarrow> (jsstring \<times> json) list" where
  "assign_own k v kvs =
     (if k = proto_name \<and> k \<notin> set (map fst kvs) then kvs else define_own k v kvs)"

section \<open>\<^verbatim>\<open>normalizeNodeData\<close>\<close>

text \<open>
  Modelled from the spec: the type of a row, declared in \<^verbatim>\<open>types/graph\<close>, which is not
  among the sources. A row of a node is \<^verbatim>\<open>{key, value, type}\<close>, the type telling scalar,
  array and object fields apart. The key may be absent or \<^verbatim>\<open>null\<close> (\<open>None\<close>); the source
  tests it for truthiness, so the empty string counts as no key as well. The source
  compares the type with the strings \<^verbatim>\<open>array\<close> and \<^verbatim>\<open>object\<close>, so it is kept as a string.
\<close>

record NodeRow =
  row_key :: "jsstring option"
  row_value :: json
  row_type :: jsstring

definition truthy_key :: "jsstring option \<Rightarrow> bool" where
  "truthy_key k = (case k of None \<Rightarrow> False | Some s \<Rightarrow> s \<noteq> [])"

text \<open>The body of the \<^verbatim>\<open>forEach\<close> callback, on the object built so far.\<close>

definition add_row :: "(jsstring \<times> json) list \<Rightarrow> NodeRow \<Rightarrow> (jsstring \<times> json) list" where
  "add_row obj row =
     (if row_type row \<noteq> str ''array'' \<and> row_type row \<noteq> str ''object'' then
        (case row_key row of
           None \<Rightarrow> obj
         | Some k \<Rightarrow> if k \<noteq> [] then assign_own k (row_value row) obj else obj)
      else obj)"

definition normalizeNodeData :: "NodeRow list option \<Rightarrow> jsstring" where
  "normalizeNodeData nodeRows =
     (case nodeRows of
        None \<Rightarrow> str ''{}''
      | Some rows \<Rightarrow>
          if length rows = 0 then str ''{}''
          else if length rows = 1 \<and> \<not> truthy_key (row_key (rows ! 0))
            then ToString (row_value (rows ! 0))
          else JSON_stringify (JObj (foldl add_row [] rows)))"

section \<open>\<^verbatim>\<open>jsonPathToString\<close>\<close>

text \<open>A path segment is a string (an object key) or a number (an array position).\<close>

datatype seg = SStr jsstring | SNum jsnum

definition render_seg :: "seg \<Rightarrow> jsstring" where
  "render_seg sg = (case sg of SNum n \<Rightarrow> Number_toString n | SStr s \<Rightarrow> [34] @ s @ [34])"

definition jsonPathToString :: "seg list option \<Rightarrow> jsstring" where
  "jsonPathToString path =
     (case path of
        None \<Rightarrow> str ''$''
      | Some p \<Rightarrow>
          if length p = 0 then str ''$''
          else str ''$['' @ join (str '']['') (map render_seg p) @ str '']'')"

section \<open>\<^verbatim>\<open>JSON.parse\<close>\<close>

text \<open>
  The parser is the JSON grammar of ECMA-404 in two passes: the text is cut into tokens,
  and a stack machine reads the tokens. Both are structurally total, so a text that is
  not JSON gives \<open>None\<close> (the \<^verbatim>\<open>SyntaxError\<close> of the host) and nothing else does.
\<close>

datatype token =
    TLBrace | TRBrace | TLBrack | TRBrack | TColon | TComma
  | TTrue | TFalse | TNull
  | TNumber jsnum
  | TString jsstring

definition is_ws :: "nat \<Rightarrow> bool" where
  "is_ws c = (c = 32 \<or> c = 9 \<or> c = 10 \<or> c = 13)"

definition hex_value :: "nat \<Rightarrow> nat option" where
  "hex_value c =
     (if 48 \<le> c \<and> c \<le> 57 then Some (c - 48)
      else if 97 \<le> c \<and> c \<le> 102 then Some (c - 87)
      else if 65 \<le> c \<and> c \<le> 70 then Some (c - 55)
      else None)"

definition unescape :: "nat \<Rightarrow> nat option" where
  "unescape e =
     (if e = 34 then Some 34
      else if e = 92 then Some 92
      else if e = 47 then Some 47
      else if e = 98 then Some 8
      else if e = 102 then Some 12
      else if e = 110 then Some 10
      else if e = 114 then Some 13
      else if e = 116 then Some 9
      else None)"

definition hex4 :: "nat \<Rightarrow> nat \<Rightarrow> nat \<Rightarrow> nat \<Rightarrow> nat option" where
  "hex4 h1 h2 h3 h4 =
     (case (hex_value h1, hex_value h2, hex_value h3, hex_value h4) of
        (Some a, Some b, Some c, Some d) \<Rightarrow> Some (4096 * a + 256 * b + 16 * c + d)
      | _ \<Rightarrow> None)"

definition cons_char :: "nat \<Rightarrow> (jsstring \<times> jsstring) option \<Rightarrow> (jsstring \<times> jsstring) option" where
  "cons_char c r = (case r of None \<Rightarrow> None | Some (s, t) \<Rightarrow> Some (c # s, t))"

text \<open>
  The characters of a string literal after its opening quote: the contents and the text
  that follows the closing quote.
\<close>

fun lex_string :: "jsstring \<Rightarrow> (jsstring \<times> jsstring) option" where
  "lex_string [] = None"
| "lex_string (c # cs) =
     (if c = 34 then Some ([], cs)
      else if c = 92 then
        (case cs of
           [] \<Rightarrow> None
         | e # r \<Rightarrow>
             if e = 117 then
               (case r of
                  h1 # h2 # h3 # h4 # r' \<Rightarrow>
                    (case hex4 h1 h2 h3 h4 of
                       None \<Rightarrow> None
                     | Some u \<Rightarrow> cons_char u (lex_string r'))
                | _ \<Rightarrow> None)
             else
               (case unescape e of
                  None \<Rightarrow> None
                | Some u \<Rightarrow> cons_char u (lex_string r)))
      else if c < 32 then None
      else cons_char c (lex_string cs))"

text \<open>
  A number with the digits \<open>ds\<close> (integer and fraction part together) and the decimal
  exponent \<open>e\<close>, without trailing zeros in the mantissa; zero has one form.
\<close>

definition make_num :: "bool \<Rightarrow> jsstring \<Rightarrow> int \<Rightarrow> jsnum" where
  "make_num neg ds e =
     (if nat_of_digits ds = 0 then Num False 0 0
      else
        let z = length (takeWhile (\<lambda>c. c = 48) (rev ds))
        in Num neg (nat_of_digits (take (length ds - z) ds)) (e + int z))"

text \<open>
  A number literal: an optional minus, an integer part without a leading zero, an optional
  fraction and an optional exponent, each with at least one digit.
\<close>

definition lex_frac :: "jsstring \<Rightarrow> (jsstring \<times> jsstring) option" where
  "lex_frac cs =
     (case cs of
        [] \<Rightarrow> Some ([], [])
      | c # r \<Rightarrow>
          if c = 46 then
            (if takeWhile is_digit r = [] then None
             else Some (takeWhile is_digit r, dropWhile is_digit r))
          else Some ([], cs))"

definition lex_sign :: "jsstring \<Rightarrow> bool \<times> jsstring" where
  "lex_sign cs =
     (case cs of
        [] \<Rightarrow> (False, [])
      | c # r \<Rightarrow> if c = 45 then (True, r) else if c = 43 then (False, r) else (False, cs))"

definition lex_exp :: "jsstring \<Rightarrow> (int \<times> jsstring) option" where
  "lex_exp cs =
     (case cs of
        [] \<Rightarrow> Some (0, [])
      | c # r \<Rightarrow>
          if c = 101 \<or> c = 69 then
            (case lex_sign r of (eneg, r') \<Rightarrow>
               if takeWhile is_digit r' = [] then None
               else Some (if eneg then - int (nat_of_digits (takeWhile is_digit r'))
                          else int (nat_of_digits (takeWhile is_digit r')),
                          dropWhile is_digit r'))
          else Some (0, cs))"

definition lex_minus :: "jsstring \<Rightarrow> bool \<times> jsstring" where
  "lex_minus cs =
     (case cs of
        [] \<Rightarrow> (False, [])
      | c # r \<Rightarrow> if c = 45 then (True, r) else (False, cs))"

definition lex_number :: "jsstring \<Rightarrow> (jsnum \<times> jsstring) option" where
  "lex_number cs =
     (case lex_minus cs of (neg, cs1) \<Rightarrow>
        let ip = takeWhile is_digit cs1
        in if ip = [] \<or> (hd ip = 48 \<and> 1 < length ip) then None
           else
             (case lex_frac (dropWhile is_digit cs1) of
                None \<Rightarrow> None
              | Some (fp, cs3) \<Rightarrow>
                  (case lex_exp cs3 of
                     None \<Rightarrow> None
                   | Some (ex, cs6) \<Rightarrow>
                       Some (make_num neg (ip @ fp) (ex - int (length fp)), cs6))))"

lemma cons_char_Some:
  "cons_char c r = Some (s, t) \<Longrightarrow> \<exists>s'. r = Some (s', t)"
  by (cases r) (auto simp: cons_char_def)

lemma lex_string_length:
  "lex_string cs = Some (s, r) \<Longrightarrow> length r < length cs"
proof (induction cs arbitrary: s r rule: lex_string.induct)
  case 1
  then show ?case by simp
next
  case (2 c cs)
  show ?case
  proof (cases "c = 34")
    case True
    with "2.prems" show ?thesis by simp
  next
    case quote: False
    show ?thesis
    proof (cases "c = 92")
      case False
      with quote "2.prems" obtain s' where "lex_string cs = Some (s', r)"
        by (auto split: if_splits dest: cons_char_Some)
      with "2.IH"(3) [OF quote False] "2.prems" quote False show ?thesis
        by (fastforce split: if_splits)
    next
      case True
      show ?thesis
      proof (cases cs)
        case Nil
        with True quote "2.prems" show ?thesis by simp
      next
        case (Cons e t)
        show ?thesis
        proof (cases "e = 117")
          case False
          with True quote Cons "2.prems" obtain u s' where
            "unescape e = Some u" "lex_string t = Some (s', r)"
            by (auto split: option.splits dest: cons_char_Some)
          with "2.IH"(2) [OF quote True Cons False] Cons show ?thesis
            by fastforce
        next
          case u: True
          with True quote Cons "2.prems" obtain h1 h2 h3 h4 t' w s' where
            t: "t = h1 # h2 # h3 # h4 # t'" and "hex4 h1 h2 h3 h4 = Some w"
            and "lex_string t' = Some (s', r)"
            by (auto split: list.splits option.splits dest: cons_char_Some)
          with "2.IH"(1) [OF quote True Cons u] Cons show ?thesis
            by fastforce
        qed
      qed
    qed
  qed
qed

lemma dropWhile_shorter:
  "takeWhile P xs \<noteq> [] \<Longrightarrow> length (dropWhile P xs) < length xs"
  by (cases xs) (auto simp: le_imp_less_Suc length_dropWhile_le split: if_splits)

lemma lex_frac_length:
  "lex_frac cs = Some (fp, r) \<Longrightarrow> length r \<le> length cs"
  by (cases cs) (auto simp: lex_frac_def le_SucI length_dropWhile_le split: if_splits)

lemma lex_sign_length:
  "lex_sign cs = (b, r) \<Longrightarrow> length r \<le> length cs"
  by (cases cs) (auto simp: lex_sign_def split: if_splits)

lemma lex_exp_length:
  assumes "lex_exp cs = Some (ex, r)"
  shows "length r \<le> length cs"
proof (cases cs)
  case Nil
  with assms show ?thesis by (simp add: lex_exp_def)
next
  case (Cons c t)
  show ?thesis
  proof (cases "c = 101 \<or> c = 69")
    case False
    with assms Cons show ?thesis by (simp add: lex_exp_def)
  next
    case True
    obtain eneg t' where sg: "lex_sign t = (eneg, t')"
      by (cases "lex_sign t")
    with assms Cons True have "r = dropWhile is_digit t'"
      by (auto simp: lex_exp_def split: if_splits)
    moreover have "length (dropWhile is_digit t') \<le> length t'"
      by (rule length_dropWhile_le)
    moreover have "length t' \<le> length t"
      using sg by (rule lex_sign_length)
    ultimately show ?thesis
      using Cons by simp
  qed
qed

lemma lex_minus_length:
  "lex_minus cs = (b, r) \<Longrightarrow> length r \<le> length cs"
  by (cases cs) (auto simp: lex_minus_def split: if_splits)

lemma lex_number_length:
  assumes "lex_number cs = Some (x, r)"
  shows "length r < length cs"
proof -
  obtain neg cs1 where m: "lex_minus cs = (neg, cs1)"
    by (cases "lex_minus cs")
  from assms m have ip: "takeWhile is_digit cs1 \<noteq> []"
    by (auto simp: lex_number_def Let_def split: if_splits)
  from assms m ip obtain fp cs3 where f: "lex_frac (dropWhile is_digit cs1) = Some (fp, cs3)"
    by (cases "lex_frac (dropWhile is_digit cs1)") (auto simp: lex_number_def Let_def split: if_splits)
  from assms m ip f obtain ex where e: "lex_exp cs3 = Some (ex, r)"
    by (cases "lex_exp cs3") (auto simp: lex_number_def Let_def split: if_splits)
  have "length r \<le> length cs3"
    using e by (rule lex_exp_length)
  moreover have "length cs3 \<le> length (dropWhile is_digit cs1)"
    using f by (rule lex_frac_length)
  moreover have "length (dropWhile is_digit cs1) < length cs1"
    using ip by (rule dropWhile_shorter)
  moreover have "length cs1 \<le> length cs"
    using m by (rule lex_minus_length)
  ultimately show ?thesis by simp
qed

function tokenize :: "jsstring \<Rightarrow> token list option" where
  "tokenize [] = Some []"
| "tokenize (c # cs) =
     (if is_ws c then tokenize cs
      else if c = 123 then map_option (Cons TLBrace) (tokenize cs)
      else if c = 125 then map_option (Cons TRBrace) (tokenize cs)
      else if c = 91 then map_option (Cons TLBrack) (tokenize cs)
      else if c = 93 then map_option (Cons TRBrack) (tokenize cs)
      else if c = 58 then map_option (Cons TColon) (tokenize cs)
      else if c = 44 then map_option (Cons TComma) (tokenize cs)
      else if c = 34 then
        (case lex_string cs of
           None \<Rightarrow> None
         | Some (s, r) \<Rightarrow> map_option (Cons (TString s)) (tokenize r))
      else if c = 45 \<or> is_digit c then
        (case lex_number (c # cs) of
           None \<Rightarrow> None
         | Some (x, r) \<Rightarrow> map_option (Cons (TNumber x)) (tokenize r))
      else if c = 116 then
        (if take 3 cs = [114, 117, 101] then map_option (Cons TTrue) (tokenize (drop 3 cs))
         else None)
      else if c = 102 then
        (if take 4 cs = [97, 108, 115, 101] then map_option (Cons TFalse) (tokenize (drop 4 cs))
         else None)
      else if c = 110 then
        (if take 3 cs = [117, 108, 108] then map_option (Cons TNull) (tokenize (drop 3 cs))
         else None)
      else None)"
  by pat_completeness auto
termination
proof (relation "measure length")
qed (auto dest: lex_string_length lex_number_length)

text \<open>
  The stack machine. A frame is an open container; the state says what may come next.
\<close>

datatype frame =
    InArr "json list"
  | InObj "(jsstring \<times> json) list"
  | InObjKey "(jsstring \<times> json) list" jsstring

datatype pstate = PValue | PFirst | PKey0 | PKey | PColon | PAfter | PDone json

text \<open>A value is complete: it is the result, the next element or the value of the open key.\<close>

fun after_value :: "json \<Rightarrow> frame list \<Rightarrow> (pstate \<times> frame list) option" where
  "after_value v [] = Some (PDone v, [])"
| "after_value v (InArr acc # fs) = Some (PAfter, InArr (acc @ [v]) # fs)"
| "after_value v (InObjKey kvs k # fs) = Some (PAfter, InObj (define_own k v kvs) # fs)"
| "after_value v (InObj kvs # fs) = None"

definition start_value :: "token \<Rightarrow> frame list \<Rightarrow> (pstate \<times> frame list) option" where
  "start_value t fs =
     (case t of
        TLBrack \<Rightarrow> Some (PFirst, InArr [] # fs)
      | TLBrace \<Rightarrow> Some (PKey0, InObj [] # fs)
      | TTrue \<Rightarrow> after_value (JBool True) fs
      | TFalse \<Rightarrow> after_value (JBool False) fs
      | TNull \<Rightarrow> after_value JNull fs
      | TNumber x \<Rightarrow> after_value (JNum x) fs
      | TString s \<Rightarrow> after_value (JStr s) fs
      | _ \<Rightarrow> None)"

definition open_key :: "token \<Rightarrow> frame list \<Rightarrow> (pstate \<times> frame list) option" where
  "open_key t fs =
     (case (t, fs) of
        (TString k, InObj kvs # fs') \<Rightarrow> Some (PColon, InObjKey kvs k # fs')
      | _ \<Rightarrow> None)"

definition close_array :: "frame list \<Rightarrow> (pstate \<times> frame list) option" where
  "close_array fs = (case fs of InArr acc # fs' \<Rightarrow> after_value (JArr acc) fs' | _ \<Rightarrow> None)"

definition close_object :: "frame list \<Rightarrow> (pstate \<times> frame list) option" where
  "close_object fs = (case fs of InObj kvs # fs' \<Rightarrow> after_value (JObj kvs) fs' | _ \<Rightarrow> None)"

fun pstep :: "pstate \<Rightarrow> frame list \<Rightarrow> token \<Rightarrow> (pstate \<times> frame list) option" where
  "pstep PValue fs t = start_value t fs"
| "pstep PFirst fs t = (if t = TRBrack then close_array fs else start_value t fs)"
| "pstep PKey0 fs t = (if t = TRBrace then close_object fs else open_key t fs)"
| "pstep PKey fs t = open_key t fs"
| "pstep PColon fs t = (if t = TColon then Some (PValue, fs) else None)"
| "pstep PAfter fs t =
     (case fs of
        InArr acc # fs' \<Rightarrow>
          if t = TComma then Some (PValue, fs)
          else if t = TRBrack then close_array fs
          else None
      | InObj kvs # fs' \<Rightarrow>
          if t = TComma then Some (PKey, fs)
          else if t = TRBrace then close_object fs
          else None
      | _ \<Rightarrow> None)"
| "pstep (PDone v) fs t = None"

fun run :: "(pstate \<times> frame list) option \<Rightarrow> token list \<Rightarrow> json option" where
  "run None ts = None"
| "run (Some (st, fs)) [] = (case st of PDone v \<Rightarrow> Some v | _ \<Rightarrow> None)"
| "run (Some (st, fs)) (t # ts) = run (pstep st fs t) ts"

definition JSON_parse :: "jsstring \<Rightarrow> json option" where
  "JSON_parse text =
     (case tokenize text of
        None \<Rightarrow> None
      | Some ts \<Rightarrow> run (Some (PValue, [])) ts)"

section \<open>Reading and writing properties\<close>

text \<open>
  The exceptions of the host that the code can meet: \<^verbatim>\<open>JSON.parse\<close> throws a
  \<^verbatim>\<open>SyntaxError\<close>; the operator \<^verbatim>\<open>in\<close> applied to a value that is not an object, and, in
  the strict mode of a module, an assignment to a property of such a value, throw a
  \<^verbatim>\<open>TypeError\<close>.
\<close>

datatype error = SyntaxError | TypeError

definition ToPropertyKey :: "seg \<Rightarrow> jsstring" where
  "ToPropertyKey sg = (case sg of SStr s \<Rightarrow> s | SNum n \<Rightarrow> Number_toString n)"

text \<open>
  \<^verbatim>\<open>key in o\<close> on the own properties. The members that the host resolves through the
  prototype chain (\<^verbatim>\<open>toString\<close>, \<^verbatim>\<open>__proto__\<close>, the \<^verbatim>\<open>length\<close> of an array and the like) are
  not part of the model: at such a name, when it is not an own property, \<open>js_in\<close>, \<open>js_get\<close>
  and \<open>js_put\<close> do not follow the host, which finds the name, reads a function, a
  prototype object or a number, and truncates or extends an array through \<^verbatim>\<open>length\<close>. What
  an update makes of the document is therefore stated below only for the paths on which
  \<open>spec_update\<close> or \<open>blocked\<close> is decided, and these avoid such names.
\<close>

fun js_in :: "jsstring \<Rightarrow> json \<Rightarrow> error + bool" where
  "js_in k (JObj kvs) = Inr (k \<in> set (map fst kvs))"
| "js_in k (JArr xs) = Inr (case array_index k of Some i \<Rightarrow> i < length xs | None \<Rightarrow> False)"
| "js_in k v = Inl TypeError"

fun js_get :: "json \<Rightarrow> jsstring \<Rightarrow> json option" where
  "js_get (JObj kvs) k = map_of kvs k"
| "js_get (JArr xs) k =
     (case array_index k of Some i \<Rightarrow> if i < length xs then Some (xs ! i) else None | None \<Rightarrow> None)"
| "js_get v k = None"

text \<open>
  \<^verbatim>\<open>o[k] = v\<close>. On an array, an index at or beyond the length extends the array; the
  holes before it are printed as \<^verbatim>\<open>null\<close> by \<^verbatim>\<open>JSON.stringify\<close> and are not read again
  by the code, so they are stored as \<open>JNull\<close>. A name that is not an index becomes a
  property that \<^verbatim>\<open>JSON.stringify\<close> does not print: the elements stay as they are.
\<close>

fun js_put :: "json \<Rightarrow> jsstring \<Rightarrow> json \<Rightarrow> error + json" where
  "js_put (JObj kvs) k v = Inr (JObj (assign_own k v kvs))"
| "js_put (JArr xs) k v =
     Inr (case array_index k of
            Some i \<Rightarrow>
              if i < length xs then JArr (xs[i := v])
              else JArr (xs @ replicate (i - length xs) JNull @ [v])
          | None \<Rightarrow> JArr xs)"
| "js_put c k v = Inl TypeError"

section \<open>\<^verbatim>\<open>updateJsonAtPath\<close>\<close>

text \<open>
  The variable \<^verbatim>\<open>current\<close> is a reference into the value \<^verbatim>\<open>obj\<close>. The values of
  \<^verbatim>\<open>JSON.parse\<close> and the fresh literals share nothing, so \<^verbatim>\<open>obj\<close> is a tree and the
  reference is the list of property names that lead from the root to the container:
  \<open>get_at\<close> reads through the reference and \<open>set_at\<close> writes through it.

  \<open>Detached\<close> is the reference to a fresh, empty container that no printed property of
  \<^verbatim>\<open>obj\<close> leads to (it was stored under a name of an array that is not an index, or
  under \<^verbatim>\<open>__proto__\<close>): writes through it leave \<^verbatim>\<open>obj\<close> as it is. This is a simplification
  of the host, where the reference then leads to a prototype object; no statement below
  about the result of an update covers a path that takes this branch.

  A reference \<open>At p\<close> always leads to a value of \<^verbatim>\<open>obj\<close>; the branch of the definitions
  below for a reference that leads nowhere is never taken from the start of the loop
  (lemma \<open>walk_assign_nested\<close>).
\<close>

datatype cursor = At "jsstring list" | Detached

fun get_at :: "json \<Rightarrow> jsstring list \<Rightarrow> json option" where
  "get_at v [] = Some v"
| "get_at v (k # ks) = (case js_get v k of None \<Rightarrow> None | Some c \<Rightarrow> get_at c ks)"

fun replace_child :: "json \<Rightarrow> jsstring \<Rightarrow> json \<Rightarrow> json" where
  "replace_child (JObj kvs) k c = JObj (replace_value k c kvs)"
| "replace_child (JArr xs) k c =
     (case array_index k of Some i \<Rightarrow> JArr (xs[i := c]) | None \<Rightarrow> JArr xs)"
| "replace_child v k c = v"

fun set_at :: "json \<Rightarrow> jsstring list \<Rightarrow> json \<Rightarrow> json" where
  "set_at v [] x = x"
| "set_at v (k # ks) x =
     (case js_get v k of None \<Rightarrow> v | Some c \<Rightarrow> replace_child v k (set_at c ks x))"

definition fresh_container :: "seg \<Rightarrow> json" where
  "fresh_container next = (case next of SNum n \<Rightarrow> JArr [] | SStr s \<Rightarrow> JObj [])"

text \<open>One turn of the loop, with \<^verbatim>\<open>key = path[i]\<close> and \<^verbatim>\<open>next = path[i + 1]\<close>.\<close>

definition walk_step :: "json \<times> cursor \<Rightarrow> seg \<Rightarrow> seg \<Rightarrow> error + (json \<times> cursor)" where
  "walk_step st sg next =
     (case st of
        (obj, Detached) \<Rightarrow> Inr (obj, Detached)
      | (obj, At p) \<Rightarrow>
          (case get_at obj p of
             None \<Rightarrow> Inl TypeError
           | Some c \<Rightarrow>
               (case js_in (ToPropertyKey sg) c of
                  Inl e \<Rightarrow> Inl e
                | Inr present \<Rightarrow>
                    if present then Inr (obj, At (p @ [ToPropertyKey sg]))
                    else
                      (case js_put c (ToPropertyKey sg) (fresh_container next) of
                         Inl e \<Rightarrow> Inl e
                       | Inr c' \<Rightarrow>
                           Inr (set_at obj p c',
                                if js_get c' (ToPropertyKey sg) = None then Detached
                                else At (p @ [ToPropertyKey sg]))))))"

text \<open>The loop \<^verbatim>\<open>for (i = 0; i < path.length - 1; i++)\<close> over the rest of the path.\<close>

fun walk :: "json \<times> cursor \<Rightarrow> seg list \<Rightarrow> error + (json \<times> cursor)" where
  "walk st (sg # next # rest) =
     (case walk_step st sg next of
        Inl e \<Rightarrow> Inl e
      | Inr st' \<Rightarrow> walk st' (next # rest))"
| "walk st [sg] = Inr st"
| "walk st [] = Inr st"

definition parse_or_raw :: "jsstring \<Rightarrow> json" where
  "parse_or_raw newValue =
     (case JSON_parse newValue of Some v \<Rightarrow> v | None \<Rightarrow> JStr newValue)"

text \<open>\<^verbatim>\<open>current[lastKey] = parsedValue\<close>; the result is \<^verbatim>\<open>obj\<close> after the assignment.\<close>

definition assign_last :: "json \<times> cursor \<Rightarrow> seg \<Rightarrow> json \<Rightarrow> error + json" where
  "assign_last st lastKey parsedValue =
     (case st of
        (obj, Detached) \<Rightarrow> Inr obj
      | (obj, At p) \<Rightarrow>
          (case get_at obj p of
             None \<Rightarrow> Inl TypeError
           | Some c \<Rightarrow>
               (case js_put c (ToPropertyKey lastKey) parsedValue of
                  Inl e \<Rightarrow> Inl e
                | Inr c' \<Rightarrow> Inr (set_at obj p c'))))"

text \<open>The body of the outer \<^verbatim>\<open>try\<close>: the text it returns, or the exception it throws.\<close>

definition update_body :: "jsstring \<Rightarrow> seg list option \<Rightarrow> jsstring \<Rightarrow> error + jsstring" where
  "update_body text path newValue =
     (case JSON_parse text of
        None \<Rightarrow> Inl SyntaxError
      | Some obj \<Rightarrow>
          (case path of
             None \<Rightarrow>
               (case JSON_parse newValue of
                  Some v \<Rightarrow> Inr (JSON_stringify v)
                | None \<Rightarrow> Inr (JSON_stringify (JStr newValue)))
           | Some p \<Rightarrow>
               if length p = 0 then
                 (case JSON_parse newValue of
                    Some v \<Rightarrow> Inr (JSON_stringify v)
                  | None \<Rightarrow> Inr (JSON_stringify (JStr newValue)))
               else
                 (case walk (obj, At []) p of
                    Inl e \<Rightarrow> Inl e
                  | Inr st \<Rightarrow>
                      (case assign_last st (last p) (parse_or_raw newValue) of
                         Inl e \<Rightarrow> Inl e
                       | Inr obj' \<Rightarrow> Inr (JSON_stringify obj')))))"

definition updateJsonAtPath :: "jsstring \<Rightarrow> seg list option \<Rightarrow> jsstring \<Rightarrow> jsstring" where
  "updateJsonAtPath text path newValue =
     (case update_body text path newValue of
        Inl e \<Rightarrow> text
      | Inr updated \<Rightarrow> updated)"

text \<open>
  The loop and the last assignment as one recursion over the value, with the operations
  of the code (\<open>js_in\<close>, \<open>js_get\<close>, \<open>js_put\<close>, \<open>fresh_container\<close>). It is an auxiliary
  form: the loop with its reference is proved equal to it below.
\<close>

fun nested_update :: "json \<Rightarrow> seg list \<Rightarrow> json \<Rightarrow> error + json" where
  "nested_update doc [] v = Inr doc"
| "nested_update doc [lastKey] v = js_put doc (ToPropertyKey lastKey) v"
| "nested_update doc (sg # next # rest) v =
     (case js_in (ToPropertyKey sg) doc of
        Inl e \<Rightarrow> Inl e
      | Inr present \<Rightarrow>
          (case nested_update
                  (case js_get doc (ToPropertyKey sg) of
                     Some child \<Rightarrow> child
                   | None \<Rightarrow> fresh_container next)
                  (next # rest) v of
             Inl e \<Rightarrow> Inl e
           | Inr child' \<Rightarrow> js_put doc (ToPropertyKey sg) child'))"

section \<open>The update in the words of the specification\<close>

text \<open>
  The names that every object of the host inherits from \<^verbatim>\<open>Object.prototype\<close>
  (ECMAScript, sections 20.1.3 and the legacy accessors), in a host whose
  \<^verbatim>\<open>Object.prototype\<close> has not been extended. For such a name the operator \<^verbatim>\<open>in\<close> is true
  on an object that has no own property of that name, and the walk of the source then
  leaves the document for an object of the host.
\<close>

definition object_prototype_members :: "jsstring list" where
  "object_prototype_members =
     map str [''constructor'', ''__defineGetter__'', ''__defineSetter__'', ''hasOwnProperty'',
              ''__lookupGetter__'', ''__lookupSetter__'', ''isPrototypeOf'',
              ''propertyIsEnumerable'', ''toString'', ''valueOf'', ''__proto__'',
              ''toLocaleString'']"

definition inherited_name :: "jsstring \<Rightarrow> bool" where
  "inherited_name k = (k \<in> set object_prototype_members)"

text \<open>
  The update as the specification words it, on the JSON data model: a container is an
  object or an array; \<open>member_of\<close> is the value of a property of a container;
  \<open>assign_member\<close> is the container with a property set to a value. These definitions do
  not use those of the walk of the source (\<open>js_in\<close>, \<open>js_get\<close>, \<open>js_put\<close>,
  \<open>fresh_container\<close>); they share with it only the name of a segment (\<open>ToPropertyKey\<close>)
  and the place of a new property among the properties of an object (\<open>define_own\<close>).

  The result is \<open>None\<close> where the words of the specification do not say what the
  document becomes: at a value that is not a container, at a name that an array cannot
  hold as an element (anything but an index), at an index beyond the end of an array
  (the host leaves holes before the element), and at a name that is missing from an
  object and inherited from the host.
\<close>

fun is_container :: "json \<Rightarrow> bool" where
  "is_container (JObj kvs) = True"
| "is_container (JArr xs) = True"
| "is_container v = False"

fun member_of :: "json \<Rightarrow> jsstring \<Rightarrow> json option" where
  "member_of (JObj kvs) k = map_of kvs k"
| "member_of (JArr xs) k =
     (case array_index k of
        None \<Rightarrow> None
      | Some i \<Rightarrow> if i < length xs then Some (xs ! i) else None)"
| "member_of v k = None"

fun assign_member :: "json \<Rightarrow> jsstring \<Rightarrow> json \<Rightarrow> json option" where
  "assign_member (JObj kvs) k v =
     (if map_of kvs k = None \<and> inherited_name k then None
      else Some (JObj (define_own k v kvs)))"
| "assign_member (JArr xs) k v =
     (case array_index k of
        None \<Rightarrow> None
      | Some i \<Rightarrow>
          if i < length xs then Some (JArr (xs[i := v]))
          else if i = length xs then Some (JArr (xs @ [v]))
          else None)"
| "assign_member c k v = None"

text \<open>
  Walk all segments except the last, creating an empty array at each missing
  intermediate step if the next segment is numeric, else an empty object; at the final
  segment, assign the new value.
\<close>

fun spec_update :: "json \<Rightarrow> seg list \<Rightarrow> json \<Rightarrow> json option" where
  "spec_update doc [] v = None"
| "spec_update doc [lastKey] v = assign_member doc (ToPropertyKey lastKey) v"
| "spec_update doc (sg # next # rest) v =
     (case spec_update
             (case member_of doc (ToPropertyKey sg) of
                Some child \<Rightarrow> child
              | None \<Rightarrow> (case next of SNum n \<Rightarrow> JArr [] | SStr s \<Rightarrow> JObj []))
             (next # rest) v of
        None \<Rightarrow> None
      | Some child' \<Rightarrow> assign_member doc (ToPropertyKey sg) child')"


section \<open>The view \<^verbatim>\<open>NodeModal\<close>\<close>

text \<open>
  Modelled from the spec: the type of a node, declared in \<^verbatim>\<open>types/graph\<close>, which is not
  among the sources. A node selection has an identifier, a sequence of rows and a path
  from the root of the document; the source treats the rows and the path as optional.
\<close>

record NodeData =
  node_id :: jsstring
  node_text :: "NodeRow list option"
  node_path :: "seg list option"

text \<open>The calls that leave the component are recorded as effects, in order.\<close>

datatype effect =
    SetJson jsstring
  | SetContents jsstring bool bool
  | SetSelectedNode NodeData
  | SetTimeout nat jsstring
  | ConsoleError jsstring
  | Alert jsstring

text \<open>
  Modelled from the spec: the three stores (\<^verbatim>\<open>useGraph\<close>, \<^verbatim>\<open>useJson\<close>, \<^verbatim>\<open>useFile\<close>), which
  are not among the sources. Each is taken as the narrow capability the component uses: a
  value to read and a setter that stores its argument and does not throw. The state
  holds the selection and the node list of the graph store, the text of the document
  store, the contents and the change flag of the file store, and the two local state
  variables of the component.
\<close>

record modal_state =
  selectedNode :: "NodeData option"
  nodes :: "NodeData list"
  json :: jsstring
  contents :: jsstring
  hasChanges :: bool
  isEditing :: bool
  editValue :: jsstring

text \<open>What \<^verbatim>\<open>console.error\<close> in the \<^verbatim>\<open>catch\<close> of \<^verbatim>\<open>updateJsonAtPath\<close> records.\<close>

definition updateJsonAtPath_log :: "jsstring \<Rightarrow> seg list option \<Rightarrow> jsstring \<Rightarrow> effect list" where
  "updateJsonAtPath_log text path newValue =
     (case update_body text path newValue of
        Inl e \<Rightarrow> [ConsoleError (str ''Failed to update JSON:'')]
      | Inr updated \<Rightarrow> [])"

text \<open>
  The body of \<^verbatim>\<open>React.useEffect\<close> with the dependencies \<^verbatim>\<open>[nodeData, isEditing]\<close>: it runs
  after a render in which one of the two has changed.
\<close>

definition edit_effect :: "modal_state \<Rightarrow> modal_state" where
  "edit_effect st =
     (case selectedNode st of
        None \<Rightarrow> st
      | Some nodeData \<Rightarrow>
          if isEditing st then
            st\<lparr>editValue :=
                 normalizeNodeData
                   (Some (case node_text nodeData of None \<Rightarrow> [] | Some rows \<Rightarrow> rows))\<rparr>
          else st)"

definition handleEdit :: "modal_state \<Rightarrow> modal_state" where
  "handleEdit st = st\<lparr>isEditing := True\<rparr>"

definition handleCancel :: "modal_state \<Rightarrow> modal_state" where
  "handleCancel st = st\<lparr>editValue := [], isEditing := False\<rparr>"

definition handleSave :: "modal_state \<Rightarrow> modal_state \<times> effect list" where
  "handleSave st =
     (case selectedNode st of
        None \<Rightarrow> (st, [])
      | Some nodeData \<Rightarrow>
          (let updatedJson = updateJsonAtPath (json st) (node_path nodeData) (editValue st);
               logged = updateJsonAtPath_log (json st) (node_path nodeData) (editValue st)
           in (case JSON_parse updatedJson of
                 None \<Rightarrow>
                   (st, logged @ [ConsoleError (str ''Invalid JSON:''),
                                  Alert (str ''Invalid JSON format. Please check your input.'')])
               | Some v \<Rightarrow>
                   (st\<lparr>json := updatedJson, contents := updatedJson, hasChanges := True,
                       isEditing := False\<rparr>,
                    logged @ [SetJson updatedJson, SetContents updatedJson True False,
                              SetTimeout 200 (node_id nodeData)]))))"

text \<open>The callback given to \<^verbatim>\<open>setTimeout\<close>, run on the state of the time it fires.\<close>

definition reselect :: "jsstring \<Rightarrow> modal_state \<Rightarrow> modal_state \<times> effect list" where
  "reselect originalNodeId st =
     (case find (\<lambda>node. node_id node = originalNodeId) (nodes st) of
        None \<Rightarrow> (st, [])
      | Some updatedNode \<Rightarrow>
          (st\<lparr>selectedNode := Some updatedNode\<rparr>, [SetSelectedNode updatedNode]))"

text \<open>
  The events of the component: the three buttons, typing in the text area, a change of
  the selection in the graph store, and the timer. After each, the component renders
  again and the effect runs when one of its dependencies has changed.
\<close>

datatype event =
    ClickEdit
  | ClickCancel
  | ClickSave
  | Change jsstring
  | Select "NodeData option"
  | Timer jsstring

definition rerender :: "modal_state \<Rightarrow> modal_state \<Rightarrow> modal_state" where
  "rerender before after =
     (if selectedNode after \<noteq> selectedNode before \<or> isEditing after \<noteq> isEditing before
      then edit_effect after else after)"

fun step :: "modal_state \<Rightarrow> event \<Rightarrow> modal_state \<times> effect list" where
  "step st ClickEdit = (rerender st (handleEdit st), [])"
| "step st ClickCancel = (rerender st (handleCancel st), [])"
| "step st ClickSave = (case handleSave st of (st', fx) \<Rightarrow> (rerender st st', fx))"
| "step st (Change t) = (st\<lparr>editValue := t\<rparr>, [])"
| "step st (Select n) = (edit_effect (st\<lparr>selectedNode := n\<rparr>), [])"
| "step st (Timer originalNodeId) =
     (case reselect originalNodeId st of
        (st', fx) \<Rightarrow> (if fx = [] then st' else edit_effect st', fx))"

fun run_events :: "modal_state \<Rightarrow> event list \<Rightarrow> modal_state \<times> effect list" where
  "run_events st [] = (st, [])"
| "run_events st (e # es) =
     (case step st e of
        (st', fx) \<Rightarrow> (case run_events st' es of (st'', fx') \<Rightarrow> (st'', fx @ fx')))"

text \<open>The effects that write to one of the three stores, and the one that sets a timer.\<close>

fun is_store_write :: "effect \<Rightarrow> bool" where
  "is_store_write (SetJson t) = True"
| "is_store_write (SetContents t c u) = True"
| "is_store_write (SetSelectedNode n) = True"
| "is_store_write fx = False"

fun is_timer :: "effect \<Rightarrow> bool" where
  "is_timer (SetTimeout d n) = True"
| "is_timer fx = False"

fun is_alert :: "effect \<Rightarrow> bool" where
  "is_alert (Alert m) = True"
| "is_alert fx = False"

text \<open>
  A document \<^verbatim>\<open>{"a":1}\<close> with the node of its field \<^verbatim>\<open>a\<close> selected, used to
  evaluate the handlers.
\<close>

definition example_text :: jsstring where
  "example_text = str ''{\"a\":1}''"

definition example_node :: NodeData where
  "example_node =
     \<lparr>node_id = str ''2'',
      node_text = Some [\<lparr>row_key = Some (str ''a''), row_value = JNum (Num False 1 0),
                         row_type = str ''number''\<rparr>],
      node_path = Some [SStr (str ''a'')]\<rparr>"

definition example_state :: modal_state where
  "example_state =
     \<lparr>selectedNode = Some example_node, nodes = [example_node], json = example_text,
      contents = example_text, hasChanges = False, isEditing = False, editValue = []\<rparr>"

section \<open>Evaluation\<close>

lemma str_simps:
  "str [] = []"
  "str (c # cs) = of_char c # str cs"
  by (simp_all add: str_def)

lemmas lex_defs =
  is_ws_def is_digit_def lex_number_def make_num_def nat_of_digits_def lex_minus_def
  lex_frac_def lex_exp_def lex_sign_def cons_char_def unescape_def hex4_def hex_value_def

lemmas parse_defs =
  JSON_parse_def start_value_def open_key_def close_object_def close_array_def
  define_own_def array_index_def

lemmas print_defs =
  JSON_stringify_def quote_def Number_toString_def digits.simps digit_char_def
  is_high_surrogate_def is_low_surrogate_def unicode_escape_def hex_digit_def show_nat_def

lemmas update_defs =
  updateJsonAtPath_def update_body_def walk_step_def assign_last_def parse_or_raw_def
  ToPropertyKey_def fresh_container_def assign_own_def proto_name_def

lemmas modal_defs =
  rerender_def handleEdit_def handleCancel_def handleSave_def updateJsonAtPath_log_def
  edit_effect_def reselect_def normalizeNodeData_def add_row_def truthy_key_def
  example_state_def example_node_def example_text_def

lemmas eval_defs = str_simps lex_defs parse_defs print_defs update_defs

section \<open>Own properties: reading after writing\<close>

lemma map_of_replace_value:
  "k \<in> fst ` set kvs \<Longrightarrow> map_of (replace_value k v kvs) k = Some v"
  by (induction kvs) auto

lemma replace_value_twice:
  "replace_value k y (replace_value k x kvs) = replace_value k y kvs"
  by (induction kvs) auto

lemma replace_value_keys:
  "fst ` set (replace_value k v kvs) = fst ` set kvs"
  by (induction kvs) auto

lemma replace_insert_index:
  "k \<notin> fst ` set kvs \<Longrightarrow>
     replace_value k y (insert_index i k x kvs) = insert_index i k y kvs"
  by (induction kvs) (auto split: option.splits)

lemma insert_index_keys:
  "fst ` set (insert_index i k x kvs) = insert k (fst ` set kvs)"
  by (induction kvs) (auto split: option.splits)

lemma replace_append_new:
  "k \<notin> fst ` set kvs \<Longrightarrow> replace_value k y (kvs @ [(k, x)]) = kvs @ [(k, y)]"
  by (induction kvs) auto

lemma define_own_keys:
  "fst ` set (define_own k x kvs) = insert k (fst ` set kvs)"
  by (simp add: define_own_def replace_value_keys insert_index_keys insert_absorb
      split: option.splits)

lemma replace_define_own:
  "k \<notin> fst ` set kvs \<Longrightarrow> replace_value k y (define_own k x kvs) = define_own k y kvs"
  by (simp add: define_own_def replace_insert_index replace_append_new split: option.splits)

lemma map_of_define_own:
  "map_of (define_own k x kvs) k = Some x"
proof (cases "k \<in> fst ` set kvs")
  case True
  then show ?thesis by (simp add: define_own_def map_of_replace_value)
next
  case False
  have "map_of (replace_value k x (define_own k x kvs)) k = Some x"
    by (rule map_of_replace_value) (simp add: define_own_keys)
  then show ?thesis
    using False by (simp add: replace_define_own)
qed

lemma map_of_present:
  "k \<in> fst ` set kvs \<Longrightarrow> \<exists>v. map_of kvs k = Some v"
  by (induction kvs) auto

lemma map_of_absent:
  "k \<notin> fst ` set kvs \<Longrightarrow> map_of kvs k = None"
  by (induction kvs) auto

lemma js_in_get:
  "js_in k c = Inr True \<Longrightarrow> \<exists>child. js_get c k = Some child"
  by (cases c) (auto split: option.splits intro: map_of_present rev_image_eqI)

lemma js_in_not_get:
  "js_in k c = Inr False \<Longrightarrow> js_get c k = None"
  by (cases c) (auto split: option.splits simp: map_of_absent)

lemma js_put_present:
  "js_get c k = Some child \<Longrightarrow> js_put c k y = Inr (replace_child c k y)"
proof (cases c)
  case (JObj kvs)
  assume "js_get c k = Some child"
  with JObj have "k \<in> fst ` set kvs"
    by (auto dest: map_of_SomeD intro: rev_image_eqI)
  with JObj show ?thesis
    by (simp add: assign_own_def define_own_def)
qed (auto split: option.splits if_splits)

lemma extend_update:
  "(xs @ replicate n JNull @ [x])[length xs + n := y] = xs @ replicate n JNull @ [y]"
  by (simp add: list_update_append)

lemma js_put_invisible:
  assumes "js_put c k x = Inr c1" and "js_get c1 k = None"
  shows "c1 = c \<and> js_put c k y = Inr c"
proof (cases c)
  case (JObj kvs)
  with assms show ?thesis
    by (auto simp: assign_own_def map_of_define_own split: if_splits)
next
  case (JArr xs)
  with assms show ?thesis
    by (auto simp: nth_append split: option.splits if_splits)
qed (use assms in auto)

lemma js_put_visible:
  assumes "js_put c k x = Inr c1" and "js_get c1 k \<noteq> None" and "js_get c k = None"
  shows "js_get c1 k = Some x \<and> js_put c k y = Inr (replace_child c1 k y)"
proof (cases c)
  case (JObj kvs)
  from assms(3) JObj have absent: "k \<notin> fst ` set kvs"
    using map_of_present [of k kvs] by auto
  show ?thesis
  proof (cases "k = proto_name")
    case True
    with assms JObj absent show ?thesis
      by (auto simp: assign_own_def)
  next
    case False
    with assms JObj absent show ?thesis
      by (auto simp: assign_own_def map_of_define_own replace_define_own)
  qed
next
  case (JArr xs)
  show ?thesis
  proof (cases "array_index k")
    case None
    with assms JArr show ?thesis by auto
  next
    case (Some i)
    with assms(3) JArr have far: "\<not> i < length xs"
      by (auto split: if_splits)
    then have i: "i = length xs + (i - length xs)"
      by simp
    have "(xs @ replicate (i - length xs) JNull @ [x])[i := y]
          = xs @ replicate (i - length xs) JNull @ [y]"
      using extend_update [of xs "i - length xs" x y] i by simp
    with assms JArr Some far show ?thesis
      by (auto simp: nth_append)
  qed
qed (use assms in auto)

section \<open>References into the document\<close>

lemma get_at_append:
  "get_at v (p @ [k]) = (case get_at v p of None \<Rightarrow> None | Some c \<Rightarrow> js_get c k)"
  by (induction v p rule: get_at.induct) (auto split: option.splits)

lemma js_get_replace_child:
  "js_get v k = Some c \<Longrightarrow> js_get (replace_child v k y) k = Some y"
proof (cases v)
  case (JObj kvs)
  assume "js_get v k = Some c"
  with JObj have "k \<in> fst ` set kvs"
    by (auto dest: map_of_SomeD intro: rev_image_eqI)
  with JObj show ?thesis
    by (simp add: map_of_replace_value)
qed (auto split: option.splits if_splits)

lemma replace_child_twice:
  "replace_child (replace_child v k x) k y = replace_child v k y"
  by (cases v) (auto simp: replace_value_twice split: option.splits)

lemma get_at_set_at:
  "get_at v p = Some c \<Longrightarrow> get_at (set_at v p x) p = Some x"
  by (induction v p arbitrary: c rule: get_at.induct)
     (auto split: option.splits simp: js_get_replace_child)

lemma set_at_set_at:
  "get_at v p = Some c \<Longrightarrow> set_at (set_at v p x) p y = set_at v p y"
  by (induction v p arbitrary: c rule: get_at.induct)
     (auto split: option.splits simp: js_get_replace_child replace_child_twice)

lemma set_at_append:
  "get_at v p = Some c \<Longrightarrow> js_get c k = Some d \<Longrightarrow>
     set_at v (p @ [k]) x = set_at v p (replace_child c k x)"
  by (induction v p arbitrary: c rule: get_at.induct) (auto split: option.splits)

section \<open>The loop of \<^verbatim>\<open>updateJsonAtPath\<close> is the nested update\<close>

text \<open>The loop followed by the assignment at the last segment.\<close>

definition walk_assign :: "json \<times> cursor \<Rightarrow> seg list \<Rightarrow> json \<Rightarrow> error + json" where
  "walk_assign st path v =
     (case walk st path of Inl e \<Rightarrow> Inl e | Inr st' \<Rightarrow> assign_last st' (last path) v)"

lemma walk_detached: "walk (obj, Detached) path = Inr (obj, Detached)"
  by (induction path rule: induct_list012) (simp_all add: walk_step_def)

lemma walk_assign_detached: "walk_assign (obj, Detached) path v = Inr obj"
  by (simp add: walk_assign_def walk_detached assign_last_def)

lemma nested_update_fresh:
  "c = JObj [] \<or> c = JArr [] \<Longrightarrow> \<exists>c'. nested_update c path v = Inr c'"
proof (induction path arbitrary: c rule: induct_list012)
  case 1
  then show ?case by simp
next
  case (2 x)
  then show ?case by auto
next
  case (3 x y zs)
  have fresh: "fresh_container y = JObj [] \<or> fresh_container y = JArr []"
    by (cases y) (simp_all add: fresh_container_def)
  from "3.IH"(2) [OF fresh] obtain c' where
    rec: "nested_update (fresh_container y) (y # zs) v = Inr c'"
    by blast
  from "3.prems" show ?case
    using rec by (auto split: option.splits)
qed

lemma walk_assign_nested:
  "path \<noteq> [] \<Longrightarrow> get_at obj p = Some c \<Longrightarrow>
     walk_assign (obj, At p) path v
     = (case nested_update c path v of Inl e \<Rightarrow> Inl e | Inr c' \<Rightarrow> Inr (set_at obj p c'))"
proof (induction path arbitrary: obj p c rule: induct_list012)
  case 1
  then show ?case by simp
next
  case (2 x)
  then show ?case
    by (simp add: walk_assign_def assign_last_def split: sum.splits)
next
  case (3 sg nxt rest)
  let ?k = "ToPropertyKey sg"
  have unfold: "walk_assign (obj, At p) (sg # nxt # rest) v
      = (case walk_step (obj, At p) sg nxt of
           Inl e \<Rightarrow> Inl e
         | Inr st' \<Rightarrow> walk_assign st' (nxt # rest) v)"
    by (simp add: walk_assign_def split: sum.splits)
  show ?case
  proof (cases "js_in ?k c")
    case (Inl e)
    with "3.prems" show ?thesis
      by (simp add: unfold walk_step_def)
  next
    case (Inr present)
    show ?thesis
    proof (cases present)
      case True
      with Inr have "js_in ?k c = Inr True" by simp
      then obtain child where child: "js_get c ?k = Some child"
        using js_in_get by blast
      have step: "walk_step (obj, At p) sg nxt = Inr (obj, At (p @ [?k]))"
        using "3.prems" Inr True by (simp add: walk_step_def)
      have at: "get_at obj (p @ [?k]) = Some child"
        using "3.prems" child by (simp add: get_at_append)
      have "walk_assign (obj, At (p @ [?k])) (nxt # rest) v
            = (case nested_update child (nxt # rest) v of
                 Inl e \<Rightarrow> Inl e
               | Inr c' \<Rightarrow> Inr (set_at obj (p @ [?k]) c'))"
        using "3.IH"(2) [OF _ at] by simp
      then show ?thesis
        using "3.prems" Inr child step
        by (simp add: unfold set_at_append js_put_present split: sum.splits)
    next
      case False
      with Inr have "js_in ?k c = Inr False" by simp
      then have absent: "js_get c ?k = None"
        by (rule js_in_not_get)
      show ?thesis
      proof (cases "js_put c ?k (fresh_container nxt)")
        case (Inl e)
        with Inr False show ?thesis by (cases c) simp_all
      next
        case put: (Inr c1)
        have fresh: "fresh_container nxt = JObj [] \<or> fresh_container nxt = JArr []"
          by (cases nxt) (simp_all add: fresh_container_def)
        then obtain c' where rec: "nested_update (fresh_container nxt) (nxt # rest) v = Inr c'"
          using nested_update_fresh by blast
        show ?thesis
        proof (cases "js_get c1 ?k")
          case None
          have step: "walk_step (obj, At p) sg nxt = Inr (set_at obj p c1, Detached)"
            using "3.prems" Inr False put None by (simp add: walk_step_def)
          from js_put_invisible [OF put None, of c'] have "c1 = c" "js_put c ?k c' = Inr c"
            by simp_all
          then show ?thesis
            using Inr absent rec step
            by (simp add: unfold walk_assign_detached)
        next
          case (Some d)
          then have vis: "js_get c1 ?k \<noteq> None" by simp
          have step: "walk_step (obj, At p) sg nxt = Inr (set_at obj p c1, At (p @ [?k]))"
            using "3.prems" Inr False put Some by (simp add: walk_step_def)
          from js_put_visible [OF put vis absent, of c']
          have got: "js_get c1 ?k = Some (fresh_container nxt)"
            and direct: "js_put c ?k c' = Inr (replace_child c1 ?k c')"
            by simp_all
          have at1: "get_at (set_at obj p c1) p = Some c1"
            using "3.prems" by (simp add: get_at_set_at)
          have at: "get_at (set_at obj p c1) (p @ [?k]) = Some (fresh_container nxt)"
            using at1 got by (simp add: get_at_append)
          have "walk_assign (set_at obj p c1, At (p @ [?k])) (nxt # rest) v
                = (case nested_update (fresh_container nxt) (nxt # rest) v of
                     Inl e \<Rightarrow> Inl e
                   | Inr c' \<Rightarrow> Inr (set_at (set_at obj p c1) (p @ [?k]) c'))"
            using "3.IH"(2) [OF _ at] by simp
          moreover have "set_at (set_at obj p c1) (p @ [?k]) c'
                         = set_at obj p (replace_child c1 ?k c')"
            using set_at_append [OF at1 got] set_at_set_at [OF "3.prems"(2)] by simp
          ultimately show ?thesis
            using Inr absent rec step direct
            by (simp add: unfold)
        qed
      qed
    qed
  qed
qed

lemma update_body_nested:
  assumes "JSON_parse text = Some obj" and "path \<noteq> []"
  shows "update_body text (Some path) newValue
         = (case nested_update obj path (parse_or_raw newValue) of
              Inl e \<Rightarrow> Inl e
            | Inr obj' \<Rightarrow> Inr (JSON_stringify obj'))"
proof -
  have body: "update_body text (Some path) newValue
        = (case walk_assign (obj, At []) path (parse_or_raw newValue) of
             Inl e \<Rightarrow> Inl e
           | Inr obj' \<Rightarrow> Inr (JSON_stringify obj'))"
    using assms by (simp add: update_body_def walk_assign_def split: sum.splits)
  have "walk_assign (obj, At []) path (parse_or_raw newValue)
        = (case nested_update obj path (parse_or_raw newValue) of
             Inl e \<Rightarrow> Inl e
           | Inr c' \<Rightarrow> Inr (set_at obj [] c'))"
    using assms(2) by (intro walk_assign_nested) simp_all
  then show ?thesis
    unfolding body by (simp split: sum.splits)
qed

section \<open>The loop of \<^verbatim>\<open>updateJsonAtPath\<close> and the update of the specification\<close>

text \<open>
  Where the update of the specification is defined the loop of the source computes it,
  and where the walk is blocked the source throws. The converse does not hold: the
  update of the specification says nothing at a name that an object inherits, and the
  source does something there.
\<close>

lemma member_of_js_get: "member_of c k = js_get c k"
  by (cases c) (simp_all split: option.splits)

lemma inherited_proto_name: "inherited_name proto_name"
  by (simp add: inherited_name_def object_prototype_members_def proto_name_def)

lemma assign_member_put:
  assumes "assign_member c k v = Some c'"
  shows "js_put c k v = Inr c'"
proof (cases c)
  case (JObj kvs)
  show ?thesis
  proof (cases "k = proto_name \<and> k \<notin> fst ` set kvs")
    case True
    then have "map_of kvs k = None" "inherited_name k"
      using map_of_absent [of k kvs] inherited_proto_name by auto
    with assms JObj show ?thesis by simp
  next
    case False
    with assms JObj show ?thesis
      by (auto simp: assign_own_def split: if_splits)
  qed
next
  case (JArr xs)
  with assms show ?thesis
    by (auto split: option.splits if_splits)
qed (use assms in simp_all)

lemma assign_member_in:
  assumes "assign_member c k v = Some c'"
  shows "\<exists>present. js_in k' c = Inr present"
  using assms by (cases c) simp_all

lemma fresh_container_cases:
  "fresh_container nxt = (case nxt of SNum n \<Rightarrow> JArr [] | SStr s \<Rightarrow> JObj [])"
  by (simp add: fresh_container_def)

lemma spec_update_nested:
  "spec_update doc path v = Some doc' \<Longrightarrow> nested_update doc path v = Inr doc'"
proof (induction path arbitrary: doc doc' rule: induct_list012)
  case 1
  then show ?case by simp
next
  case (2 x)
  then show ?case by (simp add: assign_member_put)
next
  case (3 sg nxt rest)
  let ?k = "ToPropertyKey sg"
  let ?child = "case member_of doc ?k of
                  Some child \<Rightarrow> child
                | None \<Rightarrow> (case nxt of SNum n \<Rightarrow> JArr [] | SStr s \<Rightarrow> JObj [])"
  from "3.prems" obtain child' where
    rec: "spec_update ?child (nxt # rest) v = Some child'"
    and put: "assign_member doc ?k child' = Some doc'"
    by (auto split: option.splits)
  from assign_member_in [OF put] obtain present where
    present: "js_in ?k doc = Inr present"
    by blast
  have same: "(case js_get doc ?k of Some child \<Rightarrow> child | None \<Rightarrow> fresh_container nxt) = ?child"
    by (simp add: member_of_js_get fresh_container_cases split: option.splits)
  have "nested_update ?child (nxt # rest) v = Inr child'"
    using "3.IH"(2) [OF rec] .
  then have "nested_update
               (case js_get doc ?k of Some child \<Rightarrow> child | None \<Rightarrow> fresh_container nxt)
               (nxt # rest) v = Inr child'"
    by (simp only: same)
  then show ?case
    using present assign_member_put [OF put] by simp
qed

lemma not_container_put: "\<not> is_container c \<Longrightarrow> js_put c k v = Inl TypeError"
  by (cases c) simp_all






lemma assign_member_existing:
  assumes "js_get c k = Some old"
  shows "assign_member c k v = Some (replace_child c k v)"
proof (cases c)
  case (JObj kvs)
  from assms JObj have "k \<in> fst ` set kvs"
    by (auto dest: map_of_SomeD intro: rev_image_eqI)
  with assms JObj show ?thesis
    by (simp add: define_own_def)
next
  case (JArr xs)
  with assms show ?thesis
    by (auto split: option.splits if_splits)
qed (use assms in simp_all)

lemma spec_update_existing:
  "path \<noteq> [] \<Longrightarrow> get_at doc (map ToPropertyKey path) = Some old \<Longrightarrow>
     spec_update doc path v = Some (set_at doc (map ToPropertyKey path) v)"
proof (induction path arbitrary: doc rule: induct_list012)
  case 1
  then show ?case by simp
next
  case (2 x)
  then show ?case
    by (auto simp: assign_member_existing split: option.splits)
next
  case (3 sg nxt rest)
  let ?k = "ToPropertyKey sg"
  from "3.prems" obtain child where
    child: "js_get doc ?k = Some child"
    and deep: "get_at child (map ToPropertyKey (nxt # rest)) = Some old"
    by (auto split: option.splits)
  have "spec_update child (nxt # rest) v = Some (set_at child (map ToPropertyKey (nxt # rest)) v)"
    using "3.IH"(2) [OF _ deep] by simp
  then show ?case
    using child assign_member_existing [OF child]
    by (simp add: member_of_js_get)
qed

lemma update_spec:
  assumes "JSON_parse text = Some doc" and "path \<noteq> []"
    and "spec_update doc path (parse_or_raw newValue) = Some doc'"
  shows "updateJsonAtPath text (Some path) newValue = JSON_stringify doc'"
  using update_body_nested [OF assms(1,2), of newValue] spec_update_nested [OF assms(3)]
  by (simp add: updateJsonAtPath_def)


section \<open>What \<^verbatim>\<open>JSON.stringify\<close> prints, \<^verbatim>\<open>JSON.parse\<close> reads\<close>

subsection \<open>String literals\<close>

lemma hex_value_digit: "d < 16 \<Longrightarrow> hex_value (hex_digit d) = Some d"
  by (simp add: hex_value_def hex_digit_def)

lemma hex_split:
  fixes c :: nat
  assumes "c < 65536"
  shows "4096 * (c div 4096 mod 16) + 256 * (c div 256 mod 16) + 16 * (c div 16 mod 16) + c mod 16 = c"
proof -
  define q1 where "q1 = c div 16"
  define q2 where "q2 = c div 256"
  define q3 where "q3 = c div 4096"
  define r0 where "r0 = c mod 16"
  define r1 where "r1 = q1 mod 16"
  define r2 where "r2 = q2 mod 16"
  have e0: "c = 16 * q1 + r0"
    by (simp add: q1_def r0_def)
  have "q1 div 16 = q2"
    by (simp add: q1_def q2_def div_mult2_eq)
  then have e1: "q1 = 16 * q2 + r1"
    using div_mult_mod_eq [of q1 16] by (simp add: r1_def)
  have "q2 div 16 = q3"
    by (simp add: q2_def q3_def div_mult2_eq)
  then have e2: "q2 = 16 * q3 + r2"
    using div_mult_mod_eq [of q2 16] by (simp add: r2_def)
  have "q3 < 16"
    using assms by (simp add: q3_def less_mult_imp_div_less)
  then have e3: "q3 mod 16 = q3"
    by simp
  have "4096 * q3 + 256 * r2 + 16 * r1 + r0 = c"
    using e0 e1 e2 by simp
  then show ?thesis
    using e3 by (simp add: q1_def q2_def q3_def r0_def r1_def r2_def)
qed

lemma hex4_escape:
  assumes "c < 65536"
  shows "hex4 (hex_digit (c div 4096 mod 16)) (hex_digit (c div 256 mod 16))
              (hex_digit (c div 16 mod 16)) (hex_digit (c mod 16)) = Some c"
proof -
  have "hex4 (hex_digit (c div 4096 mod 16)) (hex_digit (c div 256 mod 16))
             (hex_digit (c div 16 mod 16)) (hex_digit (c mod 16))
        = Some (4096 * (c div 4096 mod 16) + 256 * (c div 256 mod 16)
                + 16 * (c div 16 mod 16) + c mod 16)"
    unfolding hex4_def by (simp only: hex_value_digit mod_less_divisor zero_less_numeral
        prod.case option.case)
  then show ?thesis
    by (simp only: hex_split [OF assms])
qed

lemma lex_string_escape:
  assumes "c < 65536"
  shows "lex_string (unicode_escape c @ cs) = cons_char c (lex_string cs)"
proof -
  have "lex_string (unicode_escape c @ cs)
        = (case hex4 (hex_digit (c div 4096 mod 16)) (hex_digit (c div 256 mod 16))
              (hex_digit (c div 16 mod 16)) (hex_digit (c mod 16)) of
             None \<Rightarrow> None | Some u \<Rightarrow> cons_char u (lex_string cs))"
    unfolding unicode_escape_def by simp
  then show ?thesis
    by (simp only: hex4_escape [OF assms] option.case)
qed

lemma cons_char_simp: "cons_char c (Some (s, t)) = Some (c # s, t)"
  by (simp add: cons_char_def)

lemma lex_string_short:
  "unescape e = Some u \<Longrightarrow> e \<noteq> 117 \<Longrightarrow> lex_string (92 # e # r) = cons_char u (lex_string r)"
  by simp

lemma lex_string_plain:
  "32 \<le> c \<Longrightarrow> c \<noteq> 34 \<Longrightarrow> c \<noteq> 92 \<Longrightarrow> lex_string (c # r) = cons_char c (lex_string r)"
  by simp

lemma lex_string_quote_chars:
  "lex_string (quote_chars s @ 34 # rest) = Some (s, rest)"
proof (induction s rule: length_induct)
  case (1 s)
  then have IH: "\<And>ys. length ys < length s \<Longrightarrow>
      lex_string (quote_chars ys @ 34 # rest) = Some (ys, rest)"
    by blast
  show ?case
  proof (cases s)
    case Nil
    then show ?thesis by simp
  next
    case (Cons c cs)
    then have tail: "lex_string (quote_chars cs @ 34 # rest) = Some (cs, rest)"
      using IH [of cs] by simp
    consider (short) "c = 8 \<or> c = 9 \<or> c = 10 \<or> c = 12 \<or> c = 13 \<or> c = 34 \<or> c = 92"
      | (control) "c < 32" "\<not> (c = 8 \<or> c = 9 \<or> c = 10 \<or> c = 12 \<or> c = 13 \<or> c = 34 \<or> c = 92)"
      | (high) "32 \<le> c" "c \<noteq> 34" "c \<noteq> 92" "is_high_surrogate c"
      | (low) "32 \<le> c" "c \<noteq> 34" "c \<noteq> 92" "\<not> is_high_surrogate c" "is_low_surrogate c"
      | (plain) "32 \<le> c" "c \<noteq> 34" "c \<noteq> 92" "\<not> is_high_surrogate c" "\<not> is_low_surrogate c"
      by linarith
    then show ?thesis
    proof cases
      case short
      then obtain e u where esc: "unescape e = Some u" "e \<noteq> 117" "u = c"
        and q: "quote_chars (c # cs) = 92 # e # quote_chars cs"
        by (elim disjE) (simp_all add: unescape_def)
      show ?thesis
        unfolding Cons q
        using lex_string_short [OF esc(1,2), of "quote_chars cs @ 34 # rest"] tail esc(3)
        by (simp only: append_Cons cons_char_simp)
    next
      case control
      then have small: "c < 65536" by simp
      from control have q: "quote_chars (c # cs) = unicode_escape c @ quote_chars cs"
        by simp
      show ?thesis
        unfolding Cons q using tail
        by (simp only: append_assoc lex_string_escape [OF small] cons_char_simp)
    next
      case high
      then have small: "c < 65536" by (simp add: is_high_surrogate_def)
      show ?thesis
      proof (cases cs)
        case Nil
        with high have q: "quote_chars (c # cs) = unicode_escape c @ []"
          by simp
        show ?thesis
          unfolding Cons q using Nil
          by (simp only: append_assoc lex_string_escape [OF small]) (simp add: cons_char_simp)
      next
        case inner: (Cons d ds)
        show ?thesis
        proof (cases "is_low_surrogate d")
          case True
          then have d: "32 \<le> d" "d \<noteq> 34" "d \<noteq> 92"
            by (simp_all add: is_low_surrogate_def)
          from high True have q: "quote_chars (c # d # ds) = c # d # quote_chars ds"
            by simp
          have "lex_string (quote_chars ds @ 34 # rest) = Some (ds, rest)"
            using IH [of ds] Cons inner by simp
          then show ?thesis
            unfolding Cons q inner
            using lex_string_plain [OF high(1,2,3), of "d # quote_chars ds @ 34 # rest"]
                  lex_string_plain [OF d, of "quote_chars ds @ 34 # rest"]
            by (simp only: append_Cons cons_char_simp)
        next
          case False
          with high inner have q: "quote_chars (c # cs) = unicode_escape c @ quote_chars cs"
            by simp
          show ?thesis
            unfolding Cons q using tail
            by (simp only: append_assoc lex_string_escape [OF small] cons_char_simp)
        qed
      qed
    next
      case low
      then have small: "c < 65536" by (simp add: is_low_surrogate_def)
      from low have q: "quote_chars (c # cs) = unicode_escape c @ quote_chars cs"
        by simp
      show ?thesis
        unfolding Cons q using tail
        by (simp only: append_assoc lex_string_escape [OF small] cons_char_simp)
    next
      case plain
      then have q: "quote_chars (c # cs) = c # quote_chars cs"
        by simp
      show ?thesis
        unfolding Cons q
        using tail lex_string_plain [OF plain(1,2,3), of "quote_chars cs @ 34 # rest"]
        by (simp only: append_Cons cons_char_simp)
    qed
  qed
qed

subsection \<open>Number literals\<close>

text \<open>What may follow a value in a printed text: the end, a line break or a comma.\<close>

definition num_stop :: "jsstring \<Rightarrow> bool" where
  "num_stop rest = (case rest of [] \<Rightarrow> True | c # r \<Rightarrow> c = 10 \<or> c = 44)"

lemma span_digits:
  "list_all is_digit xs \<Longrightarrow> r = [] \<or> \<not> is_digit (hd r) \<Longrightarrow>
     takeWhile is_digit (xs @ r) = xs \<and> dropWhile is_digit (xs @ r) = r"
proof (induction xs)
  case Nil
  then show ?case by (cases r) auto
next
  case (Cons x xs)
  then show ?case by simp
qed

lemma num_stop_not_digit: "num_stop r \<Longrightarrow> r = [] \<or> \<not> is_digit (hd r)"
  by (cases r) (auto simp: num_stop_def is_digit_def)

lemma lex_exp_stop: "num_stop r \<Longrightarrow> lex_exp r = Some (0, r)"
  by (cases r) (auto simp: num_stop_def lex_exp_def)

lemma lex_frac_stop: "num_stop r \<Longrightarrow> lex_frac r = Some ([], r)"
  by (cases r) (auto simp: num_stop_def lex_frac_def)

lemma lex_frac_exp: "lex_frac (101 # r) = Some ([], 101 # r)"
  by (simp add: lex_frac_def)

lemma lex_exp_literal:
  assumes "ed \<noteq> []" and "list_all is_digit ed" and "num_stop r" and "sg = 45 \<or> sg = 43"
  shows "\<exists>n. lex_exp (101 # sg # ed @ r) = Some (n, r)"
proof -
  have "lex_sign (sg # ed @ r) = (sg = 45, ed @ r)"
    using assms(4) by (auto simp: lex_sign_def)
  moreover have "takeWhile is_digit (ed @ r) = ed" "dropWhile is_digit (ed @ r) = r"
    using span_digits [OF assms(2) num_stop_not_digit [OF assms(3)]] by simp_all
  ultimately show ?thesis
    using assms(1) by (simp add: lex_exp_def)
qed

lemma lex_frac_literal:
  assumes "fp \<noteq> []" and "list_all is_digit fp" and "r = [] \<or> \<not> is_digit (hd r)"
  shows "lex_frac (46 # fp @ r) = Some (fp, r)"
  using span_digits [OF assms(2,3)] assms(1) by (simp add: lex_frac_def)

lemma lex_number_parts:
  assumes "ip \<noteq> []" and "list_all is_digit ip" and "hd ip \<noteq> 48 \<or> length ip = 1"
    and "r = [] \<or> \<not> is_digit (hd r)"
    and "lex_frac r = Some (fp, r3)" and "lex_exp r3 = Some (ex, r6)"
  shows "\<exists>y. lex_number ((if neg then [45] else []) @ ip @ r) = Some (y, r6)"
proof -
  from assms(1,2) have "is_digit (hd ip)"
    by (cases ip) simp_all
  then have "hd ip \<noteq> 45"
    by (auto simp: is_digit_def)
  with assms(1) have m: "lex_minus ((if neg then [45] else []) @ ip @ r) = (neg, ip @ r)"
    by (cases ip) (auto simp: lex_minus_def)
  have sp: "takeWhile is_digit (ip @ r) = ip" "dropWhile is_digit (ip @ r) = r"
    using span_digits [OF assms(2,4)] by simp_all
  have lead: "\<not> (hd ip = 48 \<and> 1 < length ip)"
    using assms(3) by auto
  show ?thesis
    unfolding lex_number_def m using assms(1) lead assms(5,6)
    by (simp add: sp Let_def)
qed

lemma digits_nonempty: "digits n \<noteq> []"
  by (subst digits.simps) simp

lemma digits_small: "d \<in> set (digits n) \<Longrightarrow> d < 10"
  by (induction n arbitrary: d rule: digits.induct) (subst (asm) digits.simps, auto split: if_splits)

lemma digits_hd: "0 < n \<Longrightarrow> hd (digits n) \<noteq> 0"
proof (induction n rule: digits.induct)
  case (1 n)
  show ?case
  proof (cases "n < 10")
    case True
    with "1.prems" show ?thesis by (subst digits.simps) simp
  next
    case False
    then have "0 < n div 10" by simp
    with "1.IH" False have "hd (digits (n div 10)) \<noteq> 0" by simp
    with False show ?thesis
      by (subst digits.simps) (simp add: digits_nonempty)
  qed
qed

lemma is_digit_char: "d < 10 \<Longrightarrow> is_digit (digit_char d)"
  by (simp add: is_digit_def digit_char_def)

lemma show_nat_digits: "list_all is_digit (show_nat n)" "show_nat n \<noteq> []"
  by (auto simp: show_nat_def list_all_iff digits_nonempty is_digit_char digits_small)

lemma takeWhile_shorter:
  "x \<in> set xs \<Longrightarrow> \<not> P x \<Longrightarrow> length (takeWhile P xs) < length xs"
  by (induction xs) auto

lemma significant_digits:
  assumes "0 < m"
  defines "ds \<equiv> digits m"
  defines "z \<equiv> length (takeWhile (\<lambda>d. d = 0) (rev ds))"
  defines "s \<equiv> map digit_char (take (length ds - z) ds)"
  shows "s \<noteq> []" and "list_all is_digit s" and "hd s \<noteq> 48"
proof -
  have ne: "ds \<noteq> []"
    by (simp add: ds_def digits_nonempty)
  have h: "hd ds \<noteq> 0"
    using assms(1) by (simp add: ds_def digits_hd)
  have "hd ds \<in> set (rev ds)"
    using ne by simp
  then have "z < length (rev ds)"
    unfolding z_def using h by (intro takeWhile_shorter [of "hd ds"]) simp_all
  then have pos: "0 < length ds - z"
    by simp
  then have tk: "take (length ds - z) ds \<noteq> []"
    using ne by (cases ds) auto
  then show "s \<noteq> []"
    by (simp add: s_def)
  have "\<And>d. d \<in> set (take (length ds - z) ds) \<Longrightarrow> d < 10"
    by (auto dest!: in_set_takeD simp: ds_def dest: digits_small)
  then show "list_all is_digit s"
    by (auto simp: s_def list_all_iff is_digit_char)
  have "hd (take (length ds - z) ds) = hd ds"
    using pos ne by (cases ds; cases "length ds - z") auto
  then show "hd s \<noteq> 48"
    using h tk by (simp add: s_def hd_map digit_char_def)
qed

lemma Number_toString_lexes:
  assumes stop: "num_stop rest"
  shows "\<exists>y. lex_number (Number_toString x @ rest) = Some (y, rest)"
proof (cases x)
  case (Num neg m e)
  note nd = num_stop_not_digit [OF stop]
  show ?thesis
  proof (cases "m = 0")
    case True
    have "\<exists>y. lex_number ((if False then [45] else []) @ [48] @ rest) = Some (y, rest)"
      by (rule lex_number_parts [OF _ _ _ nd lex_frac_stop [OF stop] lex_exp_stop [OF stop]])
         (simp_all add: is_digit_def)
    with Num True show ?thesis
      by (simp add: Number_toString_def)
  next
    case False
    define ds where "ds = digits m"
    define z where "z = length (takeWhile (\<lambda>d. d = 0) (rev ds))"
    define s where "s = map digit_char (take (length ds - z) ds)"
    define k where "k = int (length s)"
    define n where "n = e + int z + k"
    define ed where "ed = show_nat (nat \<bar>n - 1\<bar>)"
    define ex where "ex = (if n - 1 < 0 then [45] else [43]) @ ed"
    define sg where "sg = (if n - 1 < 0 then 45 else 43 :: nat)"
    define body where "body =
        (if k \<le> n \<and> n \<le> 21 then s @ replicate (nat (n - k)) 48
         else if 0 < n \<and> n \<le> 21 then take (nat n) s @ [46] @ drop (nat n) s
         else if - 6 < n \<and> n \<le> 0 then [48, 46] @ replicate (nat (- n)) 48 @ s
         else if k = 1 then s @ [101] @ ex
         else [hd s, 46] @ tl s @ [101] @ ex)"
    have exq: "ex = sg # ed"
      by (simp add: ex_def sg_def)
    have "Number_toString (Num neg m e) = (if neg then [45] else []) @ body"
      unfolding Number_toString_def Let_def body_def ex_def ed_def n_def k_def s_def z_def ds_def
      using False by (simp only: jsnum.case if_False)
    then have shape: "Number_toString x = (if neg then [45] else []) @ body"
      by (simp only: Num)
    from False have "0 < m" by simp
    from significant_digits [OF this] have
      s: "s \<noteq> []" "list_all is_digit s" "hd s \<noteq> 48"
      unfolding s_def z_def ds_def by simp_all
    have k: "1 \<le> k"
      using s(1) by (cases s) (simp_all add: k_def)
    have sgs: "sg = 45 \<or> sg = 43"
      by (simp add: sg_def)
    have eds: "ed \<noteq> []" "list_all is_digit ed"
      by (simp_all add: ed_def show_nat_digits)
    obtain en where lx: "lex_exp (101 # sg # ed @ rest) = Some (en, rest)"
      using lex_exp_literal [OF eds stop sgs] by blast
    have e_nd: "101 # sg # ed @ rest = [] \<or> \<not> is_digit (hd (101 # sg # ed @ rest))"
      by (simp add: is_digit_def)
    have "\<exists>y. lex_number ((if neg then [45] else []) @ body @ rest) = Some (y, rest)"
    proof -
      consider (int) "k \<le> n" "n \<le> 21"
        | (dec) "\<not> (k \<le> n \<and> n \<le> 21)" "0 < n" "n \<le> 21"
        | (small) "\<not> (k \<le> n \<and> n \<le> 21)" "\<not> (0 < n \<and> n \<le> 21)" "- 6 < n" "n \<le> 0"
        | (exp1) "\<not> (k \<le> n \<and> n \<le> 21)" "\<not> (0 < n \<and> n \<le> 21)" "\<not> (- 6 < n \<and> n \<le> 0)" "k = 1"
        | (expn) "\<not> (k \<le> n \<and> n \<le> 21)" "\<not> (0 < n \<and> n \<le> 21)" "\<not> (- 6 < n \<and> n \<le> 0)" "k \<noteq> 1"
        by blast
      then show ?thesis
      proof cases
        case int
        then have b: "body = s @ replicate (nat (n - k)) 48"
          by (simp add: body_def)
        have "\<exists>y. lex_number ((if neg then [45] else []) @ (s @ replicate (nat (n - k)) 48) @ rest)
                = Some (y, rest)"
        proof (rule lex_number_parts [OF _ _ _ nd lex_frac_stop [OF stop] lex_exp_stop [OF stop]])
          show "s @ replicate (nat (n - k)) 48 \<noteq> []"
            using s(1) by simp
          show "list_all is_digit (s @ replicate (nat (n - k)) 48)"
            using s(2) by (auto simp: list_all_iff is_digit_def)
          show "hd (s @ replicate (nat (n - k)) 48) \<noteq> 48 \<or> length (s @ replicate (nat (n - k)) 48) = 1"
            using s(1,3) by simp
        qed
        then show ?thesis by (simp add: b)
      next
        case dec
        then have lt: "nat n < length s" and pos: "0 < nat n"
          by (auto simp: k_def)
        from dec(1) have "body = (if 0 < n \<and> n \<le> 21
            then take (nat n) s @ [46] @ drop (nat n) s
            else if - 6 < n \<and> n \<le> 0 then [48, 46] @ replicate (nat (- n)) 48 @ s
            else if k = 1 then s @ [101] @ ex else [hd s, 46] @ tl s @ [101] @ ex)"
          by (simp only: body_def if_False)
        with dec(2,3) have b: "body = take (nat n) s @ 46 # drop (nat n) s"
          by simp
        have fr: "lex_frac (46 # drop (nat n) s @ rest) = Some (drop (nat n) s, rest)"
        proof (rule lex_frac_literal [OF _ _ nd])
          show "drop (nat n) s \<noteq> []" using lt by simp
          show "list_all is_digit (drop (nat n) s)"
            using s(2) by (auto simp: list_all_iff dest: in_set_dropD)
        qed
        have "\<exists>y. lex_number ((if neg then [45] else []) @ take (nat n) s
                @ (46 # drop (nat n) s @ rest)) = Some (y, rest)"
        proof (rule lex_number_parts [OF _ _ _ _ fr lex_exp_stop [OF stop]])
          show "take (nat n) s \<noteq> []"
            using pos s(1) by (cases s; cases "nat n") auto
          show "list_all is_digit (take (nat n) s)"
            using s(2) by (auto simp: list_all_iff dest: in_set_takeD)
          show "hd (take (nat n) s) \<noteq> 48 \<or> length (take (nat n) s) = 1"
            using pos s(1,3) by (cases s; cases "nat n") auto
          show "46 # drop (nat n) s @ rest = [] \<or> \<not> is_digit (hd (46 # drop (nat n) s @ rest))"
            by (simp add: is_digit_def)
        qed
        then show ?thesis by (simp add: b)
      next
        case small
        from small(1,2) have "body = (if - 6 < n \<and> n \<le> 0
            then [48, 46] @ replicate (nat (- n)) 48 @ s
            else if k = 1 then s @ [101] @ ex else [hd s, 46] @ tl s @ [101] @ ex)"
          by (simp only: body_def if_False)
        with small(3,4) have b: "body = [48] @ 46 # (replicate (nat (- n)) 48 @ s)"
          by simp
        have fr: "lex_frac (46 # (replicate (nat (- n)) 48 @ s) @ rest)
                  = Some (replicate (nat (- n)) 48 @ s, rest)"
        proof (rule lex_frac_literal [OF _ _ nd])
          show "replicate (nat (- n)) 48 @ s \<noteq> []" using s(1) by simp
          show "list_all is_digit (replicate (nat (- n)) 48 @ s)"
            using s(2) by (auto simp: list_all_iff is_digit_def)
        qed
        have "\<exists>y. lex_number ((if neg then [45] else []) @ [48]
                @ (46 # (replicate (nat (- n)) 48 @ s) @ rest)) = Some (y, rest)"
          by (rule lex_number_parts [OF _ _ _ _ fr lex_exp_stop [OF stop]])
             (simp_all add: is_digit_def)
        then show ?thesis by (simp add: b)
      next
        case exp1
        from exp1(1,2,3) have "body = (if k = 1 then s @ [101] @ ex
            else [hd s, 46] @ tl s @ [101] @ ex)"
          by (simp only: body_def if_False)
        with exp1(4) have b: "body = s @ 101 # sg # ed"
          by (simp add: exq)
        have "\<exists>y. lex_number ((if neg then [45] else []) @ s @ (101 # sg # ed @ rest))
                = Some (y, rest)"
          using s by (intro lex_number_parts [OF _ _ _ e_nd lex_frac_exp lx]) simp_all
        then show ?thesis by (simp add: b)
      next
        case expn
        with k have "2 \<le> length s"
          by (simp add: k_def)
        then have tl_ne: "tl s \<noteq> []"
          by (cases s) auto
        from expn(1,2,3) have "body = (if k = 1 then s @ [101] @ ex
            else [hd s, 46] @ tl s @ [101] @ ex)"
          by (simp only: body_def if_False)
        with expn(4) have b: "body = [hd s] @ 46 # tl s @ 101 # sg # ed"
          by (simp add: exq)
        have fr: "lex_frac (46 # tl s @ (101 # sg # ed @ rest))
                  = Some (tl s, 101 # sg # ed @ rest)"
        proof (rule lex_frac_literal [OF tl_ne _ e_nd])
          show "list_all is_digit (tl s)"
            using s(2) by (cases s) simp_all
        qed
        have "\<exists>y. lex_number ((if neg then [45] else []) @ [hd s]
                @ (46 # tl s @ (101 # sg # ed @ rest))) = Some (y, rest)"
        proof (rule lex_number_parts [OF _ _ _ _ fr lx])
          show "list_all is_digit [hd s]"
            using s(1,2) by (cases s) simp_all
        qed (simp_all add: is_digit_def)
        then show ?thesis by (simp add: b)
      qed
    qed
    then show ?thesis
      by (simp add: shape)
  qed
qed

lemma lex_number_first:
  assumes "lex_number cs = Some (y, r)"
  shows "cs \<noteq> [] \<and> (hd cs = 45 \<or> is_digit (hd cs))"
proof (cases cs)
  case Nil
  with assms show ?thesis
    by (simp add: lex_number_def lex_minus_def)
next
  case (Cons c t)
  show ?thesis
  proof (cases "c = 45")
    case True
    with Cons show ?thesis by simp
  next
    case False
    with assms Cons have "takeWhile is_digit (c # t) \<noteq> []"
      by (auto simp: lex_number_def lex_minus_def Let_def split: if_splits)
    then have "is_digit c"
      by (auto split: if_splits)
    with Cons show ?thesis by simp
  qed
qed

lemma tokenize_number:
  "c = 45 \<or> is_digit c \<Longrightarrow>
     tokenize (c # cs)
     = (case lex_number (c # cs) of
          None \<Rightarrow> None
        | Some (x, r) \<Rightarrow> map_option (Cons (TNumber x)) (tokenize r))"
  by (auto simp: is_ws_def is_digit_def)

lemma tokenize_Number_toString:
  assumes "num_stop rest"
  shows "\<exists>y. tokenize (Number_toString x @ rest) = map_option (Cons (TNumber y)) (tokenize rest)"
proof -
  obtain y where y: "lex_number (Number_toString x @ rest) = Some (y, rest)"
    using Number_toString_lexes [OF assms] by blast
  from lex_number_first [OF y] obtain c cs where
    c: "Number_toString x @ rest = c # cs" "c = 45 \<or> is_digit c"
    by (cases "Number_toString x @ rest") auto
  show ?thesis
    using tokenize_number [OF c(2), of cs] y c(1) by auto
qed

subsection \<open>Values\<close>

text \<open>
  \<open>value_tokens ts v\<close>: where a value may start, the machine reads the tokens \<open>ts\<close> as
  the value \<open>v\<close>. \<open>parses_back v\<close>: the printed text of \<open>v\<close>, at any indentation and before
  any text that may follow a value, is cut into such tokens.
\<close>

definition value_tokens :: "token list \<Rightarrow> json \<Rightarrow> bool" where
  "value_tokens ts v \<longleftrightarrow>
     (\<forall>st fs more. st = PValue \<or> st = PFirst \<longrightarrow>
        run (Some (st, fs)) (ts @ more) = run (after_value v fs) more)"

definition parses_back :: "json \<Rightarrow> bool" where
  "parses_back v \<longleftrightarrow>
     (\<forall>ind rest. num_stop rest \<longrightarrow>
        (\<exists>ts v'. tokenize (serialize ind v @ rest) = map_option ((@) ts) (tokenize rest)
                 \<and> value_tokens ts v'))"

lemma tokenize_spaces: "tokenize (replicate n 32 @ cs) = tokenize cs"
  by (induction n) (simp_all add: is_ws_def)

lemma tokenize_newline: "tokenize (10 # cs) = tokenize cs"
  by (simp add: is_ws_def)

lemma tokenize_space: "tokenize (32 # cs) = tokenize cs"
  by (simp add: is_ws_def)

lemma tokenize_punct:
  "tokenize (123 # cs) = map_option (Cons TLBrace) (tokenize cs)"
  "tokenize (125 # cs) = map_option (Cons TRBrace) (tokenize cs)"
  "tokenize (91 # cs) = map_option (Cons TLBrack) (tokenize cs)"
  "tokenize (93 # cs) = map_option (Cons TRBrack) (tokenize cs)"
  "tokenize (58 # cs) = map_option (Cons TColon) (tokenize cs)"
  "tokenize (44 # cs) = map_option (Cons TComma) (tokenize cs)"
  by (simp_all add: is_ws_def)

lemma tokenize_string:
  "tokenize (34 # cs)
   = (case lex_string cs of
        None \<Rightarrow> None
      | Some (s, r) \<Rightarrow> map_option (Cons (TString s)) (tokenize r))"
  by (simp add: is_ws_def)

lemma tokenize_quote:
  "tokenize (quote s @ rest) = map_option (Cons (TString s)) (tokenize rest)"
  by (simp add: quote_def tokenize_string lex_string_quote_chars del: tokenize.simps)

lemma tokenize_words:
  "tokenize (str ''null'' @ rest) = map_option (Cons TNull) (tokenize rest)"
  "tokenize (str ''true'' @ rest) = map_option (Cons TTrue) (tokenize rest)"
  "tokenize (str ''false'' @ rest) = map_option (Cons TFalse) (tokenize rest)"
  by (simp_all add: str_simps is_ws_def is_digit_def)

lemma map_option_append:
  "map_option ((@) xs) (map_option ((@) ys) r) = map_option ((@) (xs @ ys)) r"
  "map_option (Cons x) (map_option ((@) ys) r) = map_option ((@) (x # ys)) r"
  "map_option ((@) xs) (map_option (Cons y) r) = map_option ((@) (xs @ [y])) r"
  by (cases r; simp)+

lemma value_tokens_scalar:
  "value_tokens [TNull] JNull"
  "value_tokens [TTrue] (JBool True)"
  "value_tokens [TFalse] (JBool False)"
  "value_tokens [TNumber x] (JNum x)"
  "value_tokens [TString s] (JStr s)"
  by (auto simp: value_tokens_def start_value_def)

lemma parses_back_single:
  assumes "\<And>ind rest. num_stop rest \<Longrightarrow>
     \<exists>t v'. tokenize (serialize ind v @ rest) = map_option (Cons t) (tokenize rest)
             \<and> value_tokens [t] v'"
  shows "parses_back v"
proof -
  have single: "\<And>t. (@) [t] = Cons t"
    by (rule ext) simp
  show ?thesis
    unfolding parses_back_def
  proof (intro allI impI)
    fix ind rest
    assume "num_stop rest"
    from assms [OF this, of ind] obtain t v' where
      "tokenize (serialize ind v @ rest) = map_option (Cons t) (tokenize rest)"
      "value_tokens [t] v'"
      by blast
    then have "tokenize (serialize ind v @ rest) = map_option ((@) [t]) (tokenize rest)
               \<and> value_tokens [t] v'"
      by (simp only: single)
    then show "\<exists>ts v'. tokenize (serialize ind v @ rest) = map_option ((@) ts) (tokenize rest)
                      \<and> value_tokens ts v'"
      by blast
  qed
qed

lemma parses_back_null: "parses_back JNull"
  by (rule parses_back_single)
     (use value_tokens_scalar(1) tokenize_words(1) in \<open>auto simp del: tokenize.simps\<close>)

lemma parses_back_bool: "parses_back (JBool b)"
  by (rule parses_back_single, cases b)
     (use value_tokens_scalar(2,3) tokenize_words(2,3) in \<open>auto simp del: tokenize.simps\<close>)

lemma parses_back_string: "parses_back (JStr s)"
  by (rule parses_back_single)
     (use value_tokens_scalar(5) tokenize_quote in \<open>auto simp del: tokenize.simps\<close>)

lemma parses_back_number: "parses_back (JNum x)"
proof (rule parses_back_single)
  fix ind rest
  assume "num_stop rest"
  from tokenize_Number_toString [OF this, of x] obtain y where
    "tokenize (Number_toString x @ rest) = map_option (Cons (TNumber y)) (tokenize rest)"
    by blast
  then show "\<exists>t v'. tokenize (serialize ind (JNum x) @ rest) = map_option (Cons t) (tokenize rest)
                   \<and> value_tokens [t] v'"
    using value_tokens_scalar(4) [of y] by auto
qed


definition elems_run :: "token list \<Rightarrow> json list \<Rightarrow> bool" where
  "elems_run ts vs \<longleftrightarrow>
     (\<forall>st acc fs more. st = PValue \<or> st = PFirst \<longrightarrow>
        run (Some (st, InArr acc # fs)) (ts @ more)
        = run (Some (PAfter, InArr (acc @ vs) # fs)) more)"

definition members_run ::
  "token list \<Rightarrow> ((jsstring \<times> json) list \<Rightarrow> (jsstring \<times> json) list) \<Rightarrow> bool" where
  "members_run ts f \<longleftrightarrow>
     (\<forall>st acc fs more. st = PKey0 \<or> st = PKey \<longrightarrow>
        run (Some (st, InObj acc # fs)) (ts @ more)
        = run (Some (PAfter, InObj (f acc) # fs)) more)"

lemma elems_run_single:
  "value_tokens ts v \<Longrightarrow> elems_run ts [v]"
  by (simp add: value_tokens_def elems_run_def)

lemma elems_run_cons:
  assumes "value_tokens ts v" and "elems_run ts' vs"
  shows "elems_run (ts @ TComma # ts') (v # vs)"
  unfolding elems_run_def
proof (intro allI impI)
  fix st :: pstate and acc fs more
  assume st: "st = PValue \<or> st = PFirst"
  have "run (Some (st, InArr acc # fs)) ((ts @ TComma # ts') @ more)
        = run (Some (st, InArr acc # fs)) (ts @ (TComma # ts' @ more))"
    by simp
  also have "\<dots> = run (after_value v (InArr acc # fs)) (TComma # ts' @ more)"
    using assms(1) st unfolding value_tokens_def by blast
  also have "\<dots> = run (Some (PValue, InArr (acc @ [v]) # fs)) (ts' @ more)"
    by simp
  also have "\<dots> = run (Some (PAfter, InArr ((acc @ [v]) @ vs) # fs)) more"
    using assms(2) unfolding elems_run_def by blast
  finally show "run (Some (st, InArr acc # fs)) ((ts @ TComma # ts') @ more)
        = run (Some (PAfter, InArr (acc @ v # vs) # fs)) more"
    by simp
qed

lemma array_tokens:
  assumes "elems_run ts vs"
  shows "value_tokens (TLBrack # ts @ [TRBrack]) (JArr vs)"
  unfolding value_tokens_def
proof (intro allI impI)
  fix st :: pstate and fs more
  assume st: "st = PValue \<or> st = PFirst"
  then have "run (Some (st, fs)) ((TLBrack # ts @ [TRBrack]) @ more)
        = run (Some (PFirst, InArr [] # fs)) (ts @ (TRBrack # more))"
    by (auto simp: start_value_def)
  also have "\<dots> = run (Some (PAfter, InArr ([] @ vs) # fs)) (TRBrack # more)"
    using assms unfolding elems_run_def by blast
  also have "\<dots> = run (after_value (JArr vs) fs) more"
    by (simp add: close_array_def)
  finally show "run (Some (st, fs)) ((TLBrack # ts @ [TRBrack]) @ more)
        = run (after_value (JArr vs) fs) more" .
qed

lemma empty_array_tokens: "value_tokens [TLBrack, TRBrack] (JArr [])"
  by (auto simp: value_tokens_def start_value_def close_array_def)

lemma members_run_single:
  assumes "value_tokens ts v"
  shows "members_run (TString k # TColon # ts) (define_own k v)"
  unfolding members_run_def
proof (intro allI impI)
  fix st :: pstate and acc fs more
  assume st: "st = PKey0 \<or> st = PKey"
  then have "run (Some (st, InObj acc # fs)) ((TString k # TColon # ts) @ more)
        = run (Some (PValue, InObjKey acc k # fs)) (ts @ more)"
    by (auto simp: open_key_def)
  also have "\<dots> = run (after_value v (InObjKey acc k # fs)) more"
    using assms unfolding value_tokens_def by blast
  finally show "run (Some (st, InObj acc # fs)) ((TString k # TColon # ts) @ more)
        = run (Some (PAfter, InObj (define_own k v acc) # fs)) more"
    by simp
qed

lemma members_run_cons:
  assumes "value_tokens ts v" and "members_run ts' f"
  shows "members_run (TString k # TColon # ts @ TComma # ts') (f \<circ> define_own k v)"
  unfolding members_run_def
proof (intro allI impI)
  fix st :: pstate and acc fs more
  assume st: "st = PKey0 \<or> st = PKey"
  have "run (Some (st, InObj acc # fs)) ((TString k # TColon # ts @ TComma # ts') @ more)
        = run (Some (st, InObj acc # fs)) ((TString k # TColon # ts) @ (TComma # ts' @ more))"
    by simp
  also have "\<dots> = run (Some (PAfter, InObj (define_own k v acc) # fs)) (TComma # ts' @ more)"
    using members_run_single [OF assms(1), of k] st unfolding members_run_def by blast
  also have "\<dots> = run (Some (PKey, InObj (define_own k v acc) # fs)) (ts' @ more)"
    by simp
  also have "\<dots> = run (Some (PAfter, InObj (f (define_own k v acc)) # fs)) more"
    using assms(2) unfolding members_run_def by blast
  finally show "run (Some (st, InObj acc # fs)) ((TString k # TColon # ts @ TComma # ts') @ more)
        = run (Some (PAfter, InObj ((f \<circ> define_own k v) acc) # fs)) more"
    by simp
qed

lemma object_tokens:
  assumes "members_run ts f"
  shows "value_tokens (TLBrace # ts @ [TRBrace]) (JObj (f []))"
  unfolding value_tokens_def
proof (intro allI impI)
  fix st :: pstate and fs more
  assume st: "st = PValue \<or> st = PFirst"
  then have "run (Some (st, fs)) ((TLBrace # ts @ [TRBrace]) @ more)
        = run (Some (PKey0, InObj [] # fs)) (ts @ (TRBrace # more))"
    by (auto simp: start_value_def)
  also have "\<dots> = run (Some (PAfter, InObj (f []) # fs)) (TRBrace # more)"
    using assms unfolding members_run_def by blast
  also have "\<dots> = run (after_value (JObj (f [])) fs) more"
    by (simp add: close_object_def)
  finally show "run (Some (st, fs)) ((TLBrace # ts @ [TRBrace]) @ more)
        = run (after_value (JObj (f [])) fs) more" .
qed

lemma empty_object_tokens: "value_tokens [TLBrace, TRBrace] (JObj [])"
  by (auto simp: value_tokens_def start_value_def close_object_def)


lemma join_Cons: "xs \<noteq> [] \<Longrightarrow> join sep (x # xs) = x @ sep @ join sep xs"
  by (cases xs) simp_all

lemma num_stop_simps: "num_stop (10 # cs)" "num_stop (44 # cs)" "num_stop []"
  by (simp_all add: num_stop_def)

lemma elements_parse_back:
  assumes "xs \<noteq> []" and "\<forall>x \<in> set xs. parses_back x"
  shows "\<exists>ts vs.
           tokenize (join [44, 10] (map (\<lambda>x. replicate i 32 @ serialize i x) xs) @ 10 # rest)
           = map_option ((@) ts) (tokenize rest)
           \<and> elems_run ts vs"
  using assms
proof (induction xs rule: list_nonempty_induct)
  case (single x)
  then have "parses_back x" by simp
  then obtain ts v' where
    t: "tokenize (serialize i x @ 10 # rest) = map_option ((@) ts) (tokenize (10 # rest))"
    and v: "value_tokens ts v'"
    unfolding parses_back_def using num_stop_simps(1) by blast
  have "tokenize (join [44, 10] (map (\<lambda>x. replicate i 32 @ serialize i x) [x]) @ 10 # rest)
        = map_option ((@) ts) (tokenize rest)"
    using t by (simp add: tokenize_spaces tokenize_newline del: tokenize.simps)
  then show ?case
    using elems_run_single [OF v] by blast
next
  case (cons x xs)
  let ?f = "\<lambda>x. replicate i 32 @ serialize i x"
  let ?tail = "join [44, 10] (map ?f xs) @ 10 # rest"
  from cons.prems have "parses_back x" by simp
  then obtain ts v' where
    t: "tokenize (serialize i x @ 44 # 10 # ?tail)
        = map_option ((@) ts) (tokenize (44 # 10 # ?tail))"
    and v: "value_tokens ts v'"
    unfolding parses_back_def using num_stop_simps(2) by blast
  from cons.IH cons.prems obtain ts' vs where
    t': "tokenize ?tail = map_option ((@) ts') (tokenize rest)"
    and vs: "elems_run ts' vs"
    by auto
  have "map ?f xs \<noteq> []"
    using cons.hyps by simp
  then have "join [44, 10] (map ?f (x # xs)) @ 10 # rest
        = replicate i 32 @ serialize i x @ 44 # 10 # ?tail"
    by (simp add: join_Cons)
  then have "tokenize (join [44, 10] (map ?f (x # xs)) @ 10 # rest)
        = map_option ((@) ts) (map_option (Cons TComma) (map_option ((@) ts') (tokenize rest)))"
    using t t' by (simp only: tokenize_spaces tokenize_punct tokenize_newline)
  also have "\<dots> = map_option ((@) (ts @ TComma # ts')) (tokenize rest)"
    by (cases "tokenize rest") simp_all
  finally show ?case
    using elems_run_cons [OF v vs] by blast
qed

lemma member_text:
  "tokenize (replicate i 32 @ quote k @ [58, 32] @ cs)
   = map_option (Cons (TString k)) (map_option (Cons TColon) (tokenize cs))"
  by (simp add: tokenize_spaces tokenize_quote tokenize_punct tokenize_space del: tokenize.simps)

lemma members_parse_back:
  assumes "kvs \<noteq> []" and "\<forall>kv \<in> set kvs. parses_back (snd kv)"
  shows "\<exists>ts f.
           tokenize (join [44, 10]
                       (map (\<lambda>kv. replicate i 32 @ quote (fst kv) @ [58, 32] @ serialize i (snd kv))
                            kvs) @ 10 # rest)
           = map_option ((@) ts) (tokenize rest)
           \<and> members_run ts f"
  using assms
proof (induction kvs rule: list_nonempty_induct)
  case (single kv)
  then have "parses_back (snd kv)" by simp
  then obtain ts v' where
    t: "tokenize (serialize i (snd kv) @ 10 # rest) = map_option ((@) ts) (tokenize (10 # rest))"
    and v: "value_tokens ts v'"
    unfolding parses_back_def using num_stop_simps(1) by blast
  have "tokenize (join [44, 10]
            (map (\<lambda>kv. replicate i 32 @ quote (fst kv) @ [58, 32] @ serialize i (snd kv)) [kv])
          @ 10 # rest)
        = tokenize (replicate i 32 @ quote (fst kv) @ [58, 32] @ (serialize i (snd kv) @ 10 # rest))"
    by simp
  also have "\<dots> = map_option (Cons (TString (fst kv)))
                     (map_option (Cons TColon) (map_option ((@) ts) (tokenize rest)))"
    using t by (simp only: member_text tokenize_newline)
  also have "\<dots> = map_option ((@) (TString (fst kv) # TColon # ts)) (tokenize rest)"
    by (cases "tokenize rest") simp_all
  finally show ?case
    using members_run_single [OF v] by blast
next
  case (cons kv kvs)
  let ?f = "\<lambda>kv. replicate i 32 @ quote (fst kv) @ [58, 32] @ serialize i (snd kv)"
  let ?tail = "join [44, 10] (map ?f kvs) @ 10 # rest"
  from cons.prems have "parses_back (snd kv)" by simp
  then obtain ts v' where
    t: "tokenize (serialize i (snd kv) @ 44 # 10 # ?tail)
        = map_option ((@) ts) (tokenize (44 # 10 # ?tail))"
    and v: "value_tokens ts v'"
    unfolding parses_back_def using num_stop_simps(2) by blast
  from cons.IH cons.prems obtain ts' f where
    t': "tokenize ?tail = map_option ((@) ts') (tokenize rest)"
    and f: "members_run ts' f"
    by auto
  have "map ?f kvs \<noteq> []"
    using cons.hyps by simp
  then have "join [44, 10] (map ?f (kv # kvs)) @ 10 # rest
        = replicate i 32 @ quote (fst kv) @ [58, 32] @ (serialize i (snd kv) @ 44 # 10 # ?tail)"
    by (simp add: join_Cons)
  then have "tokenize (join [44, 10] (map ?f (kv # kvs)) @ 10 # rest)
        = map_option (Cons (TString (fst kv))) (map_option (Cons TColon)
            (map_option ((@) ts) (map_option (Cons TComma)
               (map_option ((@) ts') (tokenize rest)))))"
    using t t' by (simp only: member_text tokenize_punct tokenize_newline)
  also have "\<dots> = map_option ((@) (TString (fst kv) # TColon # ts @ TComma # ts')) (tokenize rest)"
    by (cases "tokenize rest") simp_all
  finally show ?case
    using members_run_cons [OF v f] by blast
qed

lemma parses_back_all: "parses_back v"
proof (induction v)
  case JNull
  show ?case by (rule parses_back_null)
next
  case (JBool b)
  show ?case by (rule parses_back_bool)
next
  case (JNum x)
  show ?case by (rule parses_back_number)
next
  case (JStr s)
  show ?case by (rule parses_back_string)
next
  case (JArr xs)
  show ?case
    unfolding parses_back_def
  proof (intro allI impI)
    fix ind rest
    assume "num_stop rest"
    show "\<exists>ts v'. tokenize (serialize ind (JArr xs) @ rest) = map_option ((@) ts) (tokenize rest)
                  \<and> value_tokens ts v'"
    proof (cases "xs = []")
      case True
      have "tokenize (serialize ind (JArr xs) @ rest)
            = map_option ((@) [TLBrack, TRBrack]) (tokenize rest)"
        using True by (cases "tokenize rest") (simp_all add: str_simps tokenize_punct del: tokenize.simps)
      then show ?thesis
        using empty_array_tokens by blast
    next
      case False
      from JArr.IH have "\<forall>x \<in> set xs. parses_back x" by simp
      from elements_parse_back [OF False this, of "ind + 2" "replicate ind 32 @ 93 # rest"]
      obtain ts vs where
        t: "tokenize (join [44, 10] (map (\<lambda>x. replicate (ind + 2) 32 @ serialize (ind + 2) x) xs)
                      @ 10 # replicate ind 32 @ 93 # rest)
            = map_option ((@) ts) (tokenize (replicate ind 32 @ 93 # rest))"
        and vs: "elems_run ts vs"
        by blast
      have "serialize ind (JArr xs) @ rest
            = 91 # 10 # (join [44, 10] (map (\<lambda>x. replicate (ind + 2) 32 @ serialize (ind + 2) x) xs)
                      @ 10 # replicate ind 32 @ 93 # rest)"
        using False by simp
      then have "tokenize (serialize ind (JArr xs) @ rest)
            = map_option (Cons TLBrack) (map_option ((@) ts)
                (map_option (Cons TRBrack) (tokenize rest)))"
        using t by (simp only: tokenize_punct tokenize_newline tokenize_spaces)
      also have "\<dots> = map_option ((@) (TLBrack # ts @ [TRBrack])) (tokenize rest)"
        by (cases "tokenize rest") simp_all
      finally show ?thesis
        using array_tokens [OF vs] by blast
    qed
  qed
next
  case (JObj kvs)
  show ?case
    unfolding parses_back_def
  proof (intro allI impI)
    fix ind rest
    assume "num_stop rest"
    show "\<exists>ts v'. tokenize (serialize ind (JObj kvs) @ rest) = map_option ((@) ts) (tokenize rest)
                  \<and> value_tokens ts v'"
    proof (cases "kvs = []")
      case True
      have "tokenize (serialize ind (JObj kvs) @ rest)
            = map_option ((@) [TLBrace, TRBrace]) (tokenize rest)"
        using True by (cases "tokenize rest") (simp_all add: str_simps tokenize_punct del: tokenize.simps)
      then show ?thesis
        using empty_object_tokens by blast
    next
      case False
      from JObj.IH have "\<forall>kv \<in> set kvs. parses_back (snd kv)"
        by (auto simp: snds.simps)
      from members_parse_back [OF False this, of "ind + 2" "replicate ind 32 @ 125 # rest"]
      obtain ts f where
        t: "tokenize (join [44, 10]
                        (map (\<lambda>kv. replicate (ind + 2) 32 @ quote (fst kv) @ [58, 32]
                                    @ serialize (ind + 2) (snd kv)) kvs)
                      @ 10 # replicate ind 32 @ 125 # rest)
            = map_option ((@) ts) (tokenize (replicate ind 32 @ 125 # rest))"
        and f: "members_run ts f"
        by blast
      have "serialize ind (JObj kvs) @ rest
            = 123 # 10 # (join [44, 10]
                        (map (\<lambda>kv. replicate (ind + 2) 32 @ quote (fst kv) @ [58, 32]
                                    @ serialize (ind + 2) (snd kv)) kvs)
                      @ 10 # replicate ind 32 @ 125 # rest)"
        using False by simp
      then have "tokenize (serialize ind (JObj kvs) @ rest)
            = map_option (Cons TLBrace) (map_option ((@) ts)
                (map_option (Cons TRBrace) (tokenize rest)))"
        using t by (simp only: tokenize_punct tokenize_newline tokenize_spaces)
      also have "\<dots> = map_option ((@) (TLBrace # ts @ [TRBrace])) (tokenize rest)"
        by (cases "tokenize rest") simp_all
      finally show ?thesis
        using object_tokens [OF f] by blast
    qed
  qed
qed

lemma stringify_parses: "\<exists>v'. JSON_parse (JSON_stringify v) = Some v'"
proof -
  from parses_back_all [of v] obtain ts v' where
    t: "tokenize (serialize 0 v @ []) = map_option ((@) ts) (tokenize [])"
    and v: "value_tokens ts v'"
    unfolding parses_back_def using num_stop_simps(3) by blast
  from t have "tokenize (serialize 0 v) = Some ts"
    by simp
  moreover have "run (Some (PValue, [])) (ts @ []) = run (after_value v' []) []"
    using v unfolding value_tokens_def by blast
  ultimately show ?thesis
    by (simp add: JSON_parse_def JSON_stringify_def)
qed

section \<open>Properties of \<^verbatim>\<open>jsonPathToString\<close>\<close>

lemma join_brackets:
  "xs \<noteq> [] \<Longrightarrow> [91] @ join [93, 91] xs @ [93] = concat (map (\<lambda>x. [91] @ x @ [93]) xs)"
  by (induction "[93, 91 :: nat]" xs rule: join.induct) simp_all

text \<open>
  C6. \<^verbatim>\<open>jsonPathToString\<close> returns \<^verbatim>\<open>$\<close> for an absent or empty path; otherwise it returns
  \<^verbatim>\<open>$\<close> followed by one bracketed term per segment, in order, a numeric segment printed as
  the number and a string segment between double quotes; the path \<^verbatim>\<open>["a",0,"b"]\<close> gives
  \<^verbatim>\<open>$["a"][0]["b"]\<close>.
\<close>

theorem jsonPathToString_spec:
  "jsonPathToString None = str ''$''
   \<and> jsonPathToString (Some []) = str ''$''
   \<and> jsonPathToString (Some (sg # sgs))
       = str ''$'' @ concat (map (\<lambda>s. str ''['' @ render_seg s @ str '']'') (sg # sgs))
   \<and> render_seg (SNum n) = Number_toString n
   \<and> render_seg (SStr s) = str ''\"'' @ s @ str ''\"''
   \<and> jsonPathToString (Some [SStr (str ''a''), SNum (Num False 0 0), SStr (str ''b'')])
       = str ''$[\"a\"][0][\"b\"]''"
proof -
  have "jsonPathToString (Some (sg # sgs))
        = [36] @ ([91] @ join [93, 91] (map render_seg (sg # sgs)) @ [93])"
    by (simp add: jsonPathToString_def str_simps)
  also have "\<dots> = [36] @ concat (map (\<lambda>x. [91] @ x @ [93]) (map render_seg (sg # sgs)))"
    using join_brackets [of "map render_seg (sg # sgs)"] by simp
  finally have general: "jsonPathToString (Some (sg # sgs))
        = str ''$'' @ concat (map (\<lambda>s. str ''['' @ render_seg s @ str '']'') (sg # sgs))"
    by (simp add: str_simps comp_def)
  have example: "jsonPathToString (Some [SStr (str ''a''), SNum (Num False 0 0), SStr (str ''b'')])
       = str ''$[\"a\"][0][\"b\"]''"
    by (simp add: jsonPathToString_def render_seg_def str_simps Number_toString_def)
  show ?thesis
    using general example
    by (simp add: jsonPathToString_def render_seg_def str_simps)
qed

section \<open>Properties of \<^verbatim>\<open>updateJsonAtPath\<close>\<close>

lemma parse_example_text:
  "JSON_parse example_text = Some (JObj [(str ''a'', JNum (Num False 1 0))])"
  by (simp add: example_text_def eval_defs)

lemma parse_not_json: "JSON_parse (str ''not json'') = None"
  by (simp add: eval_defs)

lemma update_not_json:
  "updateJsonAtPath (str ''not json'') (Some []) (str ''1'') = str ''not json''"
  by (simp add: eval_defs)

lemma update_body_non_container:
  "update_body example_text (Some [SStr (str ''a''), SStr (str ''b''), SStr (str ''c'')]) (str ''5'')
   = Inl TypeError"
  by (simp add: example_text_def eval_defs)

text \<open>
  C2. \<^verbatim>\<open>updateJsonAtPath\<close> returns a text for every document text, path and new value:
  whenever the body of its \<^verbatim>\<open>try\<close> throws, whatever the exception, the result is the
  document text as it was given and the failure is only logged; a document text that does
  not parse is such a case, as in \<^verbatim>\<open>updateJsonAtPath('not json', [], "1")\<close>.
\<close>

theorem updateJsonAtPath_total:
  "(update_body text path newValue = Inl e \<longrightarrow>
      updateJsonAtPath text path newValue = text
      \<and> updateJsonAtPath_log text path newValue = [ConsoleError (str ''Failed to update JSON:'')])
   \<and> (JSON_parse text = None \<longrightarrow> updateJsonAtPath text path newValue = text)
   \<and> updateJsonAtPath (str ''not json'') (Some []) (str ''1'') = str ''not json''"
proof (intro conjI impI)
  assume "update_body text path newValue = Inl e"
  then show "updateJsonAtPath text path newValue = text"
    and "updateJsonAtPath_log text path newValue = [ConsoleError (str ''Failed to update JSON:'')]"
    by (simp_all add: updateJsonAtPath_def updateJsonAtPath_log_def)
next
  assume "JSON_parse text = None"
  then show "updateJsonAtPath text path newValue = text"
    by (simp add: updateJsonAtPath_def update_body_def)
next
  show "updateJsonAtPath (str ''not json'') (Some []) (str ''1'') = str ''not json''"
    by (rule update_not_json)
qed

theorem updateJsonAtPath_total_witness:
  "update_body example_text (Some [SStr (str ''a''), SStr (str ''b''), SStr (str ''c'')]) (str ''5'')
     = Inl TypeError
   \<and> updateJsonAtPath example_text (Some [SStr (str ''a''), SStr (str ''b''), SStr (str ''c'')])
         (str ''5'')
       = example_text
   \<and> JSON_parse (str ''not json'') = None
   \<and> updateJsonAtPath (str ''not json'') (Some [SStr (str ''a'')]) (str ''5'') = str ''not json''"
  using updateJsonAtPath_total
          [of example_text "Some [SStr (str ''a''), SStr (str ''b''), SStr (str ''c'')]"
              "str ''5''" TypeError]
        updateJsonAtPath_total
          [of "str ''not json''" "Some [SStr (str ''a'')]" "str ''5''" SyntaxError]
        update_body_non_container parse_not_json
  by simp

text \<open>
  C7. For a document text that parses and an absent or empty path, \<^verbatim>\<open>updateJsonAtPath\<close>
  replaces the whole document: it returns the new value parsed as JSON and printed with
  two spaces of indentation, and when the new value does not parse it returns the new
  value encoded as a JSON string literal.
\<close>

theorem updateJsonAtPath_empty_path:
  assumes "JSON_parse text = Some obj" and "path = None \<or> path = Some []"
  shows "updateJsonAtPath text path newValue
         = (case JSON_parse newValue of
              Some v \<Rightarrow> JSON_stringify v
            | None \<Rightarrow> quote newValue)"
  using assms
  by (auto simp: updateJsonAtPath_def update_body_def JSON_stringify_def split: option.splits)

theorem updateJsonAtPath_empty_path_witness:
  "JSON_parse example_text = Some (JObj [(str ''a'', JNum (Num False 1 0))])
   \<and> updateJsonAtPath example_text None (str ''[7]'') = str ''[\<newline>  7\<newline>]''
   \<and> updateJsonAtPath example_text (Some []) (str ''x y'') = str ''\"x y\"''"
proof -
  have new1: "JSON_parse (str ''[7]'') = Some (JArr [JNum (Num False 7 0)])"
    by (simp add: eval_defs)
  have new2: "JSON_parse (str ''x y'') = None"
    by (simp add: eval_defs)
  have out1: "JSON_stringify (JArr [JNum (Num False 7 0)]) = str ''[\<newline>  7\<newline>]''"
    by (simp add: eval_defs)
  have out2: "quote (str ''x y'') = str ''\"x y\"''"
    by (simp add: eval_defs)
  show ?thesis
    using updateJsonAtPath_empty_path [OF parse_example_text, of None "str ''[7]''"]
          updateJsonAtPath_empty_path [OF parse_example_text, of "Some []" "str ''x y''"]
          parse_example_text new1 new2 out1 out2
    by simp
qed

lemma update_parses:
  assumes "JSON_parse text = Some doc"
  shows "\<exists>v. JSON_parse (updateJsonAtPath text path newValue) = Some v"
proof (cases "update_body text path newValue")
  case (Inl e)
  with assms show ?thesis
    by (simp add: updateJsonAtPath_def)
next
  case (Inr updated)
  then have "\<exists>w. updated = JSON_stringify w"
    using assms
    by (auto simp: update_body_def split: option.splits if_splits sum.splits)
  with Inr show ?thesis
    using stringify_parses by (auto simp: updateJsonAtPath_def)
qed






section \<open>Properties of \<^verbatim>\<open>normalizeNodeData\<close>\<close>

text \<open>
  The rows that the loop of \<^verbatim>\<open>normalizeNodeData\<close> looks at: those with a truthy key and
  a type other than \<^verbatim>\<open>array\<close> and \<^verbatim>\<open>object\<close>, as pairs of key and value.
\<close>

definition keyed :: "NodeRow \<Rightarrow> (jsstring \<times> json) option" where
  "keyed row =
     (if row_type row \<noteq> str ''array'' \<and> row_type row \<noteq> str ''object'' then
        (case row_key row of
           None \<Rightarrow> None
         | Some k \<Rightarrow> if k \<noteq> [] then Some (k, row_value row) else None)
      else None)"

definition scalar_rows :: "NodeRow list \<Rightarrow> (jsstring \<times> json) list" where
  "scalar_rows rows = List.map_filter keyed rows"

lemma replace_value_other:
  "k' \<noteq> k \<Longrightarrow> map_of (replace_value k v kvs) k' = map_of kvs k'"
  by (induction kvs) auto

lemma insert_index_other:
  "k' \<noteq> k \<Longrightarrow> map_of (insert_index i k v kvs) k' = map_of kvs k'"
  by (induction kvs) (auto split: option.splits)

lemma map_of_define_own_upd:
  "map_of (define_own k v kvs) = (map_of kvs)(k \<mapsto> v)"
proof
  fix k'
  show "map_of (define_own k v kvs) k' = ((map_of kvs)(k \<mapsto> v)) k'"
  proof (cases "k' = k")
    case True
    then show ?thesis by (simp add: map_of_define_own)
  next
    case False
    then show ?thesis
      by (auto simp: define_own_def replace_value_other insert_index_other map_add_def
          split: option.splits)
  qed
qed

lemma replace_value_fst: "map fst (replace_value k v kvs) = map fst kvs"
  by (induction kvs) auto

lemma insert_index_distinct:
  "k \<notin> fst ` set kvs \<Longrightarrow> distinct (map fst kvs) \<Longrightarrow>
     distinct (map fst (insert_index i k v kvs))"
  by (induction kvs) (auto simp: insert_index_keys split: option.splits)

lemma define_own_distinct:
  "distinct (map fst kvs) \<Longrightarrow> distinct (map fst (define_own k v kvs))"
  by (auto simp: define_own_def replace_value_fst insert_index_distinct split: option.splits)

lemma add_row_keyed:
  "add_row obj row = (case keyed row of None \<Rightarrow> obj | Some (k, v) \<Rightarrow> assign_own k v obj)"
  by (simp add: add_row_def keyed_def split: option.splits)

lemma foldl_add_row:
  assumes "\<forall>row \<in> set rows. row_key row \<noteq> Some proto_name"
  shows "map_of (foldl add_row acc rows) = map_of acc ++ map_of (rev (scalar_rows rows))
         \<and> (distinct (map fst acc) \<longrightarrow> distinct (map fst (foldl add_row acc rows)))"
  using assms
proof (induction rows arbitrary: acc)
  case Nil
  then show ?case by (simp add: scalar_rows_def map_filter_simps)
next
  case (Cons row rows)
  show ?case
  proof (cases "keyed row")
    case None
    with Cons show ?thesis
      by (simp add: add_row_keyed scalar_rows_def map_filter_simps)
  next
    case (Some kv)
    obtain k v where kv: "kv = (k, v)" by (cases kv)
    from Some kv have "row_key row = Some k"
      by (auto simp: keyed_def split: if_splits option.splits)
    with Cons.prems have "k \<noteq> proto_name" by auto
    then have step: "add_row acc row = define_own k v acc"
      using Some kv by (simp add: add_row_keyed assign_own_def)
    have rows: "scalar_rows (row # rows) = (k, v) # scalar_rows rows"
      using Some kv by (simp add: scalar_rows_def map_filter_simps)
    from Cons.IH [of "define_own k v acc"] Cons.prems have
      IH: "map_of (foldl add_row (define_own k v acc) rows)
           = map_of (define_own k v acc) ++ map_of (rev (scalar_rows rows))"
      and D: "distinct (map fst (define_own k v acc)) \<longrightarrow>
              distinct (map fst (foldl add_row (define_own k v acc) rows))"
      by simp_all
    have "map_of (define_own k v acc) ++ map_of (rev (scalar_rows rows))
          = map_of acc ++ map_of (rev (scalar_rows rows) @ [(k, v)])"
      by (simp add: map_of_define_own_upd map_add_upd_left fun_eq_iff map_add_def split: option.splits)
    with IH D show ?thesis
      by (simp add: step rows define_own_distinct)
  qed
qed

text \<open>
  Away from the name \<^verbatim>\<open>__proto__\<close>, the result is the serialization of an object whose
  keys are distinct and which maps each key of a kept row to the value of the last such
  row.
\<close>

lemma normalizeNodeData_rows:
  assumes "rows \<noteq> []"
    and "length rows = 1 \<longrightarrow> truthy_key (row_key (hd rows))"
    and "\<forall>row \<in> set rows. row_key row \<noteq> Some proto_name"
  shows "\<exists>kvs. normalizeNodeData (Some rows) = JSON_stringify (JObj kvs)
               \<and> distinct (map fst kvs)
               \<and> map_of kvs = map_of (rev (scalar_rows rows))"
proof -
  have "normalizeNodeData (Some rows) = JSON_stringify (JObj (foldl add_row [] rows))"
    using assms(1,2) by (cases rows) (auto simp: normalizeNodeData_def)
  then show ?thesis
    using foldl_add_row [OF assms(3), of "[]"] by auto
qed


text \<open>
  C5 at the rows \<^verbatim>\<open>[{key: "__proto__", value: 1, type: "number"},
  {key: "a", value: 2, type: "number"}]\<close>: the first row has a key and a scalar type, yet
  the assignment \<^verbatim>\<open>obj["__proto__"] = 1\<close> creates no property, and the result is the
  serialization of \<^verbatim>\<open>{"a": 2}\<close> alone.
\<close>

theorem normalizeNodeData_drops_proto:
  "normalizeNodeData
     (Some [\<lparr>row_key = Some (str ''__proto__''), row_value = JNum (Num False 1 0),
             row_type = str ''number''\<rparr>,
            \<lparr>row_key = Some (str ''a''), row_value = JNum (Num False 2 0),
             row_type = str ''number''\<rparr>])
   = str ''{\<newline>  \"a\": 2\<newline>}''"
  by (simp add: normalizeNodeData_def add_row_def truthy_key_def eval_defs)

section \<open>Properties of the save handler\<close>

text \<open>
  C4. When the text that \<^verbatim>\<open>updateJsonAtPath\<close> returns at save time does not parse, the
  save is given up as a whole: the alert \<^verbatim>\<open>Invalid JSON format. Please check your input.\<close>
  is shown, the state is what it was (so the component is still editing and the edit
  buffer is untouched), and no effect writes to the document store, the file store or
  the selection store.
\<close>

theorem handleSave_invalid_aborts:
  assumes "selectedNode st = Some nodeData"
    and "JSON_parse (updateJsonAtPath (json st) (node_path nodeData) (editValue st)) = None"
  shows "fst (step st ClickSave) = st
         \<and> isEditing (fst (step st ClickSave)) = isEditing st
         \<and> editValue (fst (step st ClickSave)) = editValue st
         \<and> Alert (str ''Invalid JSON format. Please check your input.'')
             \<in> set (snd (step st ClickSave))
         \<and> filter is_store_write (snd (step st ClickSave)) = []
         \<and> filter is_timer (snd (step st ClickSave)) = []"
  using assms
  by (simp add: handleSave_def updateJsonAtPath_log_def rerender_def Let_def
      split: sum.splits)

theorem handleSave_invalid_aborts_witness:
  "selectedNode (example_state\<lparr>json := str ''not json'', isEditing := True, editValue := str ''5''\<rparr>)
     = Some example_node
   \<and> JSON_parse (updateJsonAtPath (str ''not json'') (node_path example_node) (str ''5'')) = None
   \<and> isEditing (fst (step (example_state\<lparr>json := str ''not json'', isEditing := True,
                                          editValue := str ''5''\<rparr>) ClickSave))
   \<and> editValue (fst (step (example_state\<lparr>json := str ''not json'', isEditing := True,
                                          editValue := str ''5''\<rparr>) ClickSave)) = str ''5''
   \<and> Alert (str ''Invalid JSON format. Please check your input.'')
        \<in> set (snd (step (example_state\<lparr>json := str ''not json'', isEditing := True,
                                          editValue := str ''5''\<rparr>) ClickSave))"
proof -
  have sel: "selectedNode (example_state\<lparr>json := str ''not json'', isEditing := True,
                                         editValue := str ''5''\<rparr>) = Some example_node"
    by (simp add: example_state_def)
  have upd: "updateJsonAtPath (str ''not json'') (node_path example_node) (str ''5'')
             = str ''not json''"
    by (simp add: updateJsonAtPath_def update_body_def parse_not_json)
  have bad: "JSON_parse (updateJsonAtPath
               (json (example_state\<lparr>json := str ''not json'', isEditing := True,
                                     editValue := str ''5''\<rparr>))
               (node_path example_node)
               (editValue (example_state\<lparr>json := str ''not json'', isEditing := True,
                                          editValue := str ''5''\<rparr>))) = None"
    by (simp add: upd parse_not_json)
  show ?thesis
    using handleSave_invalid_aborts [OF sel bad] sel upd parse_not_json
    by simp
qed

text \<open>
  C8. When the updated text parses, the save commits: the new text is written to the
  document store, the same text is written to the file store with the flag for unsaved
  changes set, and the component leaves the editing state; no alert is shown.
\<close>

theorem handleSave_commits:
  assumes "selectedNode st = Some nodeData"
    and "JSON_parse (updateJsonAtPath (json st) (node_path nodeData) (editValue st)) = Some v"
  shows "json (fst (handleSave st))
           = updateJsonAtPath (json st) (node_path nodeData) (editValue st)
         \<and> contents (fst (handleSave st))
           = updateJsonAtPath (json st) (node_path nodeData) (editValue st)
         \<and> hasChanges (fst (handleSave st))
         \<and> \<not> isEditing (fst (handleSave st))
         \<and> \<not> isEditing (fst (step st ClickSave))
         \<and> filter is_store_write (snd (handleSave st))
           = [SetJson (updateJsonAtPath (json st) (node_path nodeData) (editValue st)),
              SetContents (updateJsonAtPath (json st) (node_path nodeData) (editValue st))
                True False]
         \<and> filter is_alert (snd (handleSave st)) = []"
  using assms
  by (simp add: handleSave_def updateJsonAtPath_log_def rerender_def edit_effect_def Let_def
      split: sum.splits)

lemma update_example_2:
  "updateJsonAtPath example_text (Some [SStr (str ''a'')]) (str ''2'')
   = str ''{\<newline>  \"a\": 2\<newline>}''"
  by (simp add: example_text_def eval_defs)

lemma parse_example_2:
  "JSON_parse (str ''{\<newline>  \"a\": 2\<newline>}'') = Some (JObj [(str ''a'', JNum (Num False 2 0))])"
  by (simp add: eval_defs)

lemma example_save_parses:
  "JSON_parse (updateJsonAtPath
     (json (example_state\<lparr>isEditing := True, editValue := str ''2''\<rparr>))
     (node_path example_node)
     (editValue (example_state\<lparr>isEditing := True, editValue := str ''2''\<rparr>)))
   = Some (JObj [(str ''a'', JNum (Num False 2 0))])"
  by (simp add: example_state_def example_node_def update_example_2 parse_example_2)

lemma example_save_selected:
  "selectedNode (example_state\<lparr>isEditing := True, editValue := str ''2''\<rparr>) = Some example_node"
  by (simp add: example_state_def)

theorem handleSave_commits_witness:
  "selectedNode (example_state\<lparr>isEditing := True, editValue := str ''2''\<rparr>) = Some example_node
   \<and> json (fst (handleSave (example_state\<lparr>isEditing := True, editValue := str ''2''\<rparr>)))
       = str ''{\<newline>  \"a\": 2\<newline>}''
   \<and> contents (fst (handleSave (example_state\<lparr>isEditing := True, editValue := str ''2''\<rparr>)))
       = str ''{\<newline>  \"a\": 2\<newline>}''
   \<and> hasChanges (fst (handleSave (example_state\<lparr>isEditing := True, editValue := str ''2''\<rparr>)))
   \<and> \<not> isEditing (fst (handleSave (example_state\<lparr>isEditing := True, editValue := str ''2''\<rparr>)))"
  using handleSave_commits [OF example_save_selected example_save_parses]
        example_save_selected
  by (simp add: example_state_def example_node_def update_example_2)

text \<open>
  C9. A save that commits sets one timer, with the delay 200 and the identifier of the
  node that was selected. When the timer fires, its callback reads the node list of the
  graph store as it is then and selects the first node with that identifier; it writes
  to the selection store exactly when such a node exists, and when none does it changes
  nothing and reports nothing.
\<close>

theorem reselect_after_save:
  assumes "selectedNode st = Some nodeData"
    and "JSON_parse (updateJsonAtPath (json st) (node_path nodeData) (editValue st)) = Some v"
  shows "filter is_timer (snd (handleSave st)) = [SetTimeout 200 (node_id nodeData)]
         \<and> (find (\<lambda>node. node_id node = node_id nodeData) (nodes later) = None \<longrightarrow>
              reselect (node_id nodeData) later = (later, []))
         \<and> (find (\<lambda>node. node_id node = node_id nodeData) (nodes later) = Some n \<longrightarrow>
              reselect (node_id nodeData) later
              = (later\<lparr>selectedNode := Some n\<rparr>, [SetSelectedNode n]))
         \<and> ((\<exists>node \<in> set (nodes later). node_id node = node_id nodeData)
              \<longleftrightarrow> filter is_store_write (snd (reselect (node_id nodeData) later)) \<noteq> [])
         \<and> filter is_alert (snd (reselect (node_id nodeData) later)) = []"
proof -
  have timer: "filter is_timer (snd (handleSave st)) = [SetTimeout 200 (node_id nodeData)]"
    using assms
    by (simp add: handleSave_def updateJsonAtPath_log_def Let_def split: sum.splits)
  have present: "(\<exists>node \<in> set (nodes later). node_id node = node_id nodeData)
       \<longleftrightarrow> find (\<lambda>node. node_id node = node_id nodeData) (nodes later) \<noteq> None"
    by (auto simp: find_None_iff)
  show ?thesis
    using timer present
    by (cases "find (\<lambda>node. node_id node = node_id nodeData) (nodes later)")
       (simp_all add: reselect_def)
qed

theorem reselect_after_save_witness:
  "filter is_timer (snd (handleSave (example_state\<lparr>isEditing := True, editValue := str ''2''\<rparr>)))
     = [SetTimeout 200 (str ''2'')]
   \<and> reselect (str ''2'') (example_state\<lparr>nodes := []\<rparr>) = (example_state\<lparr>nodes := []\<rparr>, [])
   \<and> reselect (str ''2'') example_state
       = (example_state\<lparr>selectedNode := Some example_node\<rparr>, [SetSelectedNode example_node])"
proof -
  have none: "find (\<lambda>node. node_id node = node_id example_node)
                (nodes (example_state\<lparr>nodes := []\<rparr>)) = None"
    by simp
  have some: "find (\<lambda>node. node_id node = node_id example_node) (nodes example_state)
              = Some example_node"
    by (simp add: example_state_def)
  have ident: "node_id example_node = str ''2''"
    by (simp add: example_node_def)
  show ?thesis
    using reselect_after_save [OF example_save_selected example_save_parses,
            of "example_state\<lparr>nodes := []\<rparr>" example_node]
          reselect_after_save [OF example_save_selected example_save_parses,
            of example_state example_node]
          none some ident
    by simp
qed

text \<open>
  C10. While the component is editing, a change of the selection to a node overwrites
  the edit buffer with \<^verbatim>\<open>normalizeNodeData\<close> of the rows of the new node, whatever the user
  had typed; the same happens on entry into the editing state.
\<close>

theorem selection_change_overwrites_buffer:
  "(isEditing st \<longrightarrow>
      editValue (fst (step (fst (step st (Change typed))) (Select (Some nodeData))))
      = normalizeNodeData (Some (case node_text nodeData of None \<Rightarrow> [] | Some rows \<Rightarrow> rows))
      \<and> isEditing (fst (step (fst (step st (Change typed))) (Select (Some nodeData)))))
   \<and> (\<not> isEditing st \<and> selectedNode st = Some nodeData \<longrightarrow>
      editValue (fst (step st ClickEdit))
      = normalizeNodeData (Some (case node_text nodeData of None \<Rightarrow> [] | Some rows \<Rightarrow> rows)))"
  by (simp add: edit_effect_def rerender_def handleEdit_def)

theorem selection_change_overwrites_buffer_witness:
  "isEditing (example_state\<lparr>isEditing := True\<rparr>)
   \<and> editValue (fst (step (fst (step (example_state\<lparr>isEditing := True\<rparr>) (Change (str ''typed''))))
                       (Select (Some (example_node\<lparr>node_id := str ''3''\<rparr>)))))
     = str ''{\<newline>  \"a\": 1\<newline>}''
   \<and> editValue (fst (step (example_state\<lparr>isEditing := True\<rparr>) (Change (str ''typed''))))
     = str ''typed''"
proof -
  have rows: "normalizeNodeData
      (Some (case node_text (example_node\<lparr>node_id := str ''3''\<rparr>) of
               None \<Rightarrow> [] | Some rows \<Rightarrow> rows)) = str ''{\<newline>  \"a\": 1\<newline>}''"
    by (simp add: modal_defs eval_defs)
  show ?thesis
    using selection_change_overwrites_buffer
            [of "example_state\<lparr>isEditing := True\<rparr>" "str ''typed''"
                "example_node\<lparr>node_id := str ''3''\<rparr>"]
          rows
    by simp
qed

section \<open>Clearing the buffer and saving\<close>

lemma parse_or_raw_empty: "parse_or_raw [] = JStr []"
  by (simp add: parse_or_raw_def JSON_parse_def)

lemma update_example_cleared:
  "updateJsonAtPath example_text (Some [SStr (str ''a'')]) [] = str ''{\<newline>  \"a\": \"\"\<newline>}''"
  by (simp add: example_text_def eval_defs)

lemma parse_example_cleared:
  "JSON_parse (str ''{\<newline>  \"a\": \"\"\<newline>}'') = Some (JObj [(str ''a'', JStr [])])"
  by (simp add: eval_defs)

lemma run_clear_save:
  "run_events st [ClickEdit, Change [], ClickSave]
   = (case handleSave ((rerender st (handleEdit st))\<lparr>editValue := []\<rparr>) of
        (st', fx) \<Rightarrow> (rerender ((rerender st (handleEdit st))\<lparr>editValue := []\<rparr>) st', fx))"
  by (simp split: prod.splits)

lemma entered_editing:
  "selectedNode ((rerender st (handleEdit st))\<lparr>editValue := []\<rparr>) = selectedNode st"
  "json ((rerender st (handleEdit st))\<lparr>editValue := []\<rparr>) = json st"
  "editValue ((rerender st (handleEdit st))\<lparr>editValue := []\<rparr>) = []"
  "isEditing ((rerender st (handleEdit st))\<lparr>editValue := []\<rparr>)"
  by (simp_all add: rerender_def handleEdit_def edit_effect_def split: option.splits)

text \<open>
  C1, as the specification states it, fails: on the document \<^verbatim>\<open>{"a":1}\<close> with the node at
  the path \<^verbatim>\<open>["a"]\<close> selected, Edit, clearing the buffer and Save give the document
  \<^verbatim>\<open>{"a": ""}\<close>, which parses; no alert is shown and the component has left the editing
  state.
\<close>

theorem clear_buffer_save_counterexample:
  "JSON_parse (json example_state) = Some (JObj [(str ''a'', JNum (Num False 1 0))])
   \<and> selectedNode example_state = Some example_node
   \<and> node_path example_node = Some [SStr (str ''a'')]
   \<and> JSON_parse (updateJsonAtPath (json example_state) (node_path example_node) [])
       = Some (JObj [(str ''a'', JStr [])])
   \<and> filter is_alert (snd (run_events example_state [ClickEdit, Change [], ClickSave])) = []
   \<and> \<not> isEditing (fst (run_events example_state [ClickEdit, Change [], ClickSave]))"
proof -
  have "run_events example_state [ClickEdit, Change [], ClickSave]
        = (example_state\<lparr>json := str ''{\<newline>  \"a\": \"\"\<newline>}'',
                          contents := str ''{\<newline>  \"a\": \"\"\<newline>}'', hasChanges := True\<rparr>,
           [SetJson (str ''{\<newline>  \"a\": \"\"\<newline>}''),
            SetContents (str ''{\<newline>  \"a\": \"\"\<newline>}'') True False,
            SetTimeout 200 (str ''2'')])"
    by (simp add: modal_defs eval_defs Let_def)
  moreover have "isEditing example_state = False"
    by (simp add: example_state_def)
  moreover have "json example_state = example_text"
    "selectedNode example_state = Some example_node"
    "node_path example_node = Some [SStr (str ''a'')]"
    by (simp_all add: example_state_def example_node_def)
  ultimately show ?thesis
    using parse_example_text update_example_cleared parse_example_cleared
    by simp
qed

text \<open>
  C1, amended. When the user enters the editing state, clears the edit buffer and saves
  on a node with a non-empty path in a document that parses, the empty buffer does not
  parse as JSON, so the new value is the empty string; the text that \<^verbatim>\<open>updateJsonAtPath\<close>
  returns parses, so no alert is shown, that text is committed to the document store and
  the file store, and the component leaves the editing state. When the path leads to a
  value of the document, the committed text is the two-space serialization of the
  document with the empty string at the path; more generally, when the update of the
  specification is defined, it is the serialization of the updated document.
\<close>

theorem clear_buffer_save_commits:
  assumes "JSON_parse (json st) = Some doc"
    and "selectedNode st = Some nodeData"
    and "node_path nodeData = Some path"
    and "path \<noteq> []"
  shows "JSON_parse [] = None
         \<and> (get_at doc (map ToPropertyKey path) = Some old \<longrightarrow>
              updateJsonAtPath (json st) (Some path) []
              = JSON_stringify (set_at doc (map ToPropertyKey path) (JStr [])))
         \<and> (spec_update doc path (JStr []) = Some doc' \<longrightarrow>
              updateJsonAtPath (json st) (Some path) [] = JSON_stringify doc')
         \<and> (\<exists>v. JSON_parse (updateJsonAtPath (json st) (Some path) []) = Some v)
         \<and> filter is_alert (snd (run_events st [ClickEdit, Change [], ClickSave])) = []
         \<and> \<not> isEditing (fst (run_events st [ClickEdit, Change [], ClickSave]))
         \<and> json (fst (run_events st [ClickEdit, Change [], ClickSave]))
           = updateJsonAtPath (json st) (Some path) []
         \<and> contents (fst (run_events st [ClickEdit, Change [], ClickSave]))
           = updateJsonAtPath (json st) (Some path) []"
proof -
  let ?ed = "(rerender st (handleEdit st))\<lparr>editValue := []\<rparr>"
  let ?new = "updateJsonAtPath (json st) (Some path) []"
  obtain v where v: "JSON_parse ?new = Some v"
    using update_parses [OF assms(1)] by blast
  have empty: "JSON_parse [] = None"
    by (simp add: JSON_parse_def)
  have spec: "spec_update doc path (JStr []) = Some doc' \<longrightarrow> ?new = JSON_stringify doc'"
    using update_spec [OF assms(1,4), of "[]" doc'] by (simp add: parse_or_raw_empty)
  have existing: "get_at doc (map ToPropertyKey path) = Some old \<longrightarrow>
                  ?new = JSON_stringify (set_at doc (map ToPropertyKey path) (JStr []))"
    using update_spec [OF assms(1,4), of "[]" "set_at doc (map ToPropertyKey path) (JStr [])"]
          spec_update_existing [OF assms(4), of doc old "JStr []"]
    by (simp add: parse_or_raw_empty)
  have saved: "handleSave ?ed
        = (?ed\<lparr>json := ?new, contents := ?new, hasChanges := True, isEditing := False\<rparr>,
           updateJsonAtPath_log (json st) (Some path) []
           @ [SetJson ?new, SetContents ?new True False, SetTimeout 200 (node_id nodeData)])"
    using assms(2,3) v
    by (simp add: handleSave_def entered_editing Let_def)
  have log: "filter is_alert (updateJsonAtPath_log (json st) (Some path) []) = []"
    by (simp add: updateJsonAtPath_log_def split: sum.splits)
  have final: "run_events st [ClickEdit, Change [], ClickSave]
        = (rerender ?ed (?ed\<lparr>json := ?new, contents := ?new, hasChanges := True,
                              isEditing := False\<rparr>),
           updateJsonAtPath_log (json st) (Some path) []
           @ [SetJson ?new, SetContents ?new True False, SetTimeout 200 (node_id nodeData)])"
    unfolding run_clear_save saved by simp
  have left: "rerender ?ed (?ed\<lparr>json := ?new, contents := ?new, hasChanges := True,
                                  isEditing := False\<rparr>)
        = ?ed\<lparr>json := ?new, contents := ?new, hasChanges := True, isEditing := False\<rparr>"
    by (simp add: rerender_def edit_effect_def split: option.splits)
  show ?thesis
    unfolding final left using v spec existing log empty
    by simp
qed

theorem clear_buffer_save_commits_witness:
  "JSON_parse (json example_state) = Some (JObj [(str ''a'', JNum (Num False 1 0))])
   \<and> selectedNode example_state = Some example_node
   \<and> node_path example_node = Some [SStr (str ''a'')]
   \<and> get_at (JObj [(str ''a'', JNum (Num False 1 0))]) (map ToPropertyKey [SStr (str ''a'')])
       = Some (JNum (Num False 1 0))
   \<and> spec_update (JObj [(str ''a'', JNum (Num False 1 0))]) [SStr (str ''a'')] (JStr [])
       = Some (JObj [(str ''a'', JStr [])])
   \<and> filter is_alert (snd (run_events example_state [ClickEdit, Change [], ClickSave])) = []
   \<and> \<not> isEditing (fst (run_events example_state [ClickEdit, Change [], ClickSave]))
   \<and> json (fst (run_events example_state [ClickEdit, Change [], ClickSave]))
       = str ''{\<newline>  \"a\": \"\"\<newline>}''
   \<and> contents (fst (run_events example_state [ClickEdit, Change [], ClickSave]))
       = JSON_stringify (JObj [(str ''a'', JStr [])])"
proof -
  let ?doc = "JObj [(str ''a'', JNum (Num False 1 0))]"
  have doc: "JSON_parse (json example_state) = Some ?doc"
    using parse_example_text by (simp add: example_state_def)
  have sel: "selectedNode example_state = Some example_node"
    by (simp add: example_state_def)
  have path: "node_path example_node = Some [SStr (str ''a'')]"
    by (simp add: example_node_def)
  have ne: "[SStr (str ''a'')] \<noteq> []"
    by simp
  have old: "get_at ?doc (map ToPropertyKey [SStr (str ''a'')]) = Some (JNum (Num False 1 0))"
    by (simp add: eval_defs)
  have spec: "spec_update ?doc [SStr (str ''a'')] (JStr []) = Some (JObj [(str ''a'', JStr [])])"
    by (simp add: eval_defs)
  have new: "updateJsonAtPath (json example_state) (Some [SStr (str ''a'')]) []
             = str ''{\<newline>  \"a\": \"\"\<newline>}''"
    using update_example_cleared by (simp add: example_state_def)
  note run = clear_buffer_save_commits
                [OF doc sel path ne, of "JNum (Num False 1 0)" "JObj [(str ''a'', JStr [])]"]
  from run have quiet:
      "filter is_alert (snd (run_events example_state [ClickEdit, Change [], ClickSave])) = []"
    and left: "\<not> isEditing (fst (run_events example_state [ClickEdit, Change [], ClickSave]))"
    and stored: "json (fst (run_events example_state [ClickEdit, Change [], ClickSave]))
                 = updateJsonAtPath (json example_state) (Some [SStr (str ''a'')]) []"
    and filed: "contents (fst (run_events example_state [ClickEdit, Change [], ClickSave]))
               = updateJsonAtPath (json example_state) (Some [SStr (str ''a'')]) []"
    by blast+
  from run spec have printed:
      "updateJsonAtPath (json example_state) (Some [SStr (str ''a'')]) []
       = JSON_stringify (JObj [(str ''a'', JStr [])])"
    by blast
  from stored new have stored': "json (fst (run_events example_state [ClickEdit, Change [], ClickSave]))
                 = str ''{\<newline>  \"a\": \"\"\<newline>}''"
    by (simp only:)
  from filed printed have filed': "contents (fst (run_events example_state [ClickEdit, Change [], ClickSave]))
               = JSON_stringify (JObj [(str ''a'', JStr [])])"
    by (simp only:)
  show ?thesis
    using doc sel path old spec quiet left stored' filed' by blast
qed

end
